theory Spec2Isabelle
  imports Main "HOL-Library.Char_ord" "HOL-Library.List_Lexorder"
begin

section \<open>Log-file IP extraction: a shallow embedding of \<^verbatim>\<open>src/main.py\<close>\<close>

text \<open>
  The program scans a log file for IPv4 literals with a regular expression, classifies each
  literal with Python's \<^verbatim>\<open>ipaddress\<close> module and returns two sorted lists.

  Representation. A Python \<^verbatim>\<open>bytes\<close> object is a list of 8-bit characters. A Python
  \<^verbatim>\<open>str\<close> is represented by its UTF-8 encoding, again a list of 8-bit characters; on
  ASCII text (all that the scanner ever produces) the two coincide, and comparing UTF-8
  encodings bytewise is comparing strings by code point, which is what Python's
  \<^verbatim>\<open>sorted\<close> does on \<^verbatim>\<open>str\<close>.
\<close>

type_synonym bytes = "char list"

subsection \<open>Slices and \<^verbatim>\<open>str.split\<close>\<close>

definition slice :: "'a list \<Rightarrow> nat \<Rightarrow> nat \<Rightarrow> 'a list" where
  "slice s i j = take (j - i) (drop i s)"

text \<open>\<^verbatim>\<open>s.split(c)\<close> for a one-character separator: \<^verbatim>\<open>''.split('.') == ['']\<close>.\<close>

fun split_on :: "char \<Rightarrow> string \<Rightarrow> string list" where
  "split_on c [] = [[]]"
| "split_on c (x # xs) =
     (if x = c then [] # split_on c xs
      else (case split_on c xs of
              [] \<Rightarrow> [[x]]
            | g # gs \<Rightarrow> (x # g) # gs))"

subsection \<open>The regular-expression engine (Python \<^verbatim>\<open>re\<close> on bytes patterns)\<close>

text \<open>
  Only the constructs that \<^verbatim>\<open>IP_PATTERN\<close> uses: a literal byte, a class given as a range
  or as a list of bytes, sequence, ordered alternative \<^verbatim>\<open>|\<close>, the greedy option \<^verbatim>\<open>?\<close>, the
  counted repetition \<^verbatim>\<open>{n}\<close> and the word boundary \<^verbatim>\<open>\b\<close>.
\<close>

datatype re =
    Lit char
  | Range char char
  | Cls "char list"
  | Seq re re
  | Alt re re
  | Opt re
  | Times nat re
  | WordB

text \<open>For a bytes pattern \<^verbatim>\<open>\w\<close> is \<^verbatim>\<open>[a-zA-Z0-9_]\<close>.\<close>

definition is_word :: "char \<Rightarrow> bool" where
  "is_word c \<longleftrightarrow>
     (CHR ''a'' \<le> c \<and> c \<le> CHR ''z'') \<or> (CHR ''A'' \<le> c \<and> c \<le> CHR ''Z'') \<or>
     (CHR ''0'' \<le> c \<and> c \<le> CHR ''9'') \<or> c = CHR ''_''"

text \<open>
  \<^verbatim>\<open>\b\<close> holds at position \<open>i\<close> when exactly one of the bytes before and after \<open>i\<close> is a
  word byte; the start and the end of the buffer count as non-word.
\<close>

definition word_before :: "bytes \<Rightarrow> nat \<Rightarrow> bool" where
  "word_before s i \<longleftrightarrow> 0 < i \<and> i \<le> length s \<and> is_word (s ! (i - 1))"

definition word_after :: "bytes \<Rightarrow> nat \<Rightarrow> bool" where
  "word_after s i \<longleftrightarrow> i < length s \<and> is_word (s ! i)"

definition word_boundary :: "bytes \<Rightarrow> nat \<Rightarrow> bool" where
  "word_boundary s i \<longleftrightarrow> word_before s i \<noteq> word_after s i"

text \<open>
  \<open>iter n f i\<close> runs the step \<open>f\<close> exactly \<open>n\<close> times from position \<open>i\<close>, keeping the order
  in which a backtracking matcher tries the alternatives.
\<close>

primrec iter :: "nat \<Rightarrow> (nat \<Rightarrow> nat list) \<Rightarrow> nat \<Rightarrow> nat list" where
  "iter 0 f i = [i]"
| "iter (Suc n) f i = concat (map (iter n f) (f i))"

text \<open>
  \<open>rmatch r s i\<close> lists the positions where a match of \<open>r\<close> that starts at \<open>i\<close> can end, in
  the order in which the backtracking engine tries them: the first alternative before the
  second, one occurrence of an optional item before none. The engine reports the first
  end position of the whole pattern.
\<close>

primrec rmatch :: "re \<Rightarrow> bytes \<Rightarrow> nat \<Rightarrow> nat list" where
  "rmatch (Lit c) s i = (if i < length s \<and> s ! i = c then [Suc i] else [])"
| "rmatch (Range a b) s i = (if i < length s \<and> a \<le> s ! i \<and> s ! i \<le> b then [Suc i] else [])"
| "rmatch (Cls cs) s i = (if i < length s \<and> s ! i \<in> set cs then [Suc i] else [])"
| "rmatch (Seq r1 r2) s i = concat (map (rmatch r2 s) (rmatch r1 s i))"
| "rmatch (Alt r1 r2) s i = rmatch r1 s i @ rmatch r2 s i"
| "rmatch (Opt r) s i = rmatch r s i @ [i]"
| "rmatch (Times n r) s i = iter n (rmatch r s) i"
| "rmatch WordB s i = (if word_boundary s i then [i] else [])"

text \<open>
  \<^verbatim>\<open>pattern.finditer(s)\<close> as the list of spans, scanning from position \<open>p\<close>: the engine
  tries to match at \<open>p\<close>; on failure it moves on by one byte, on success it reports the
  span and resumes at its end. (After an empty match Python moves on by one byte; the
  pattern of this program never matches the empty string.)
\<close>

function finditer :: "re \<Rightarrow> bytes \<Rightarrow> nat \<Rightarrow> (nat \<times> nat) list" where
  "finditer r s p =
     (if length s < p then []
      else (case rmatch r s p of
              [] \<Rightarrow> finditer r s (Suc p)
            | e # _ \<Rightarrow> (p, e) # finditer r s (if p < e then e else Suc p)))"
  by pat_completeness auto
termination
  by (relation "measure (\<lambda>(r, s, p). Suc (length s) - p)") auto

text \<open>
  \<^verbatim>\<open>pattern.findall(s)\<close> for a pattern without capturing groups: the matched byte strings,
  left to right.
\<close>

definition findall :: "re \<Rightarrow> bytes \<Rightarrow> bytes list" where
  "findall r s = map (\<lambda>(i, e). slice s i e) (finditer r s 0)"

text \<open>
  \<^verbatim>\<open>IP_PATTERN\<close>: an octet is \<^verbatim>\<open>25[0-5]|2[0-4][0-9]|[01]?[0-9][0-9]?\<close>; the pattern is
  \<^verbatim>\<open>\b(?:octet\.){3}octet\b\<close>.
\<close>

definition octet_re :: re where
  "octet_re =
     Alt (Seq (Lit CHR ''2'') (Seq (Lit CHR ''5'') (Range CHR ''0'' CHR ''5'')))
    (Alt (Seq (Lit CHR ''2'') (Seq (Range CHR ''0'' CHR ''4'') (Range CHR ''0'' CHR ''9'')))
         (Seq (Opt (Cls ''01'')) (Seq (Range CHR ''0'' CHR ''9'') (Opt (Range CHR ''0'' CHR ''9'')))))"

definition IP_PATTERN :: re where
  "IP_PATTERN =
     Seq WordB (Seq (Times 3 (Seq octet_re (Lit CHR ''.''))) (Seq octet_re WordB))"

subsection \<open>\<^verbatim>\<open>bytes.decode('utf-8', errors='ignore')\<close>\<close>

text \<open>
  With \<^verbatim>\<open>str\<close> represented by its UTF-8 encoding, decoding with \<^verbatim>\<open>errors='ignore'\<close> keeps
  every well-formed UTF-8 sequence and drops every ill-formed one. \<open>utf8_step\<close> looks at the
  head of the buffer and returns how many bytes the decoder consumes there and whether
  they are a well-formed sequence: an ill-formed sequence is consumed up to, and without,
  the first byte that cannot continue it.
\<close>

definition byte_in :: "nat \<Rightarrow> nat \<Rightarrow> char \<Rightarrow> bool" where
  "byte_in lo hi b \<longleftrightarrow> lo \<le> (of_char b :: nat) \<and> (of_char b :: nat) \<le> hi"

fun follow :: "(nat \<times> nat) list \<Rightarrow> bytes \<Rightarrow> nat \<Rightarrow> nat \<times> bool" where
  "follow [] bs n = (n, True)"
| "follow ((lo, hi) # rs) [] n = (n, False)"
| "follow ((lo, hi) # rs) (b # bs) n =
     (if byte_in lo hi b then follow rs bs (Suc n) else (n, False))"

definition utf8_step :: "bytes \<Rightarrow> nat \<times> bool" where
  "utf8_step bs =
     (case bs of
        [] \<Rightarrow> (0, True)
      | b # cs \<Rightarrow>
          (if byte_in 0x00 0x7F b then (1, True)
           else if byte_in 0xC2 0xDF b then follow [(0x80, 0xBF)] cs 1
           else if byte_in 0xE0 0xE0 b then follow [(0xA0, 0xBF), (0x80, 0xBF)] cs 1
           else if byte_in 0xED 0xED b then follow [(0x80, 0x9F), (0x80, 0xBF)] cs 1
           else if byte_in 0xE1 0xEF b then follow [(0x80, 0xBF), (0x80, 0xBF)] cs 1
           else if byte_in 0xF0 0xF0 b then follow [(0x90, 0xBF), (0x80, 0xBF), (0x80, 0xBF)] cs 1
           else if byte_in 0xF1 0xF3 b then follow [(0x80, 0xBF), (0x80, 0xBF), (0x80, 0xBF)] cs 1
           else if byte_in 0xF4 0xF4 b then follow [(0x80, 0x8F), (0x80, 0xBF), (0x80, 0xBF)] cs 1
           else (1, False)))"

function decode_utf8_ignore :: "bytes \<Rightarrow> string" where
  "decode_utf8_ignore bs =
     (if bs = [] then []
      else (let (n, ok) = utf8_step bs;
                n = max 1 n
            in (if ok then take n bs else []) @ decode_utf8_ignore (drop n bs)))"
  by pat_completeness auto
termination
  by (relation "measure length") auto

subsection \<open>The \<^verbatim>\<open>ipaddress\<close> module\<close>

text \<open>
  Exceptions are values. \<open>ValueError\<close> stands for \<^verbatim>\<open>ValueError\<close> and its subclasses
  (\<^verbatim>\<open>ipaddress.AddressValueError\<close> is one), \<open>OtherException\<close> for every other subclass of
  \<^verbatim>\<open>Exception\<close>; both carry the text of \<^verbatim>\<open>str(e)\<close>.
\<close>

datatype exn = ValueError string | OtherException string

fun exn_msg :: "exn \<Rightarrow> string" where
  "exn_msg (ValueError m) = m"
| "exn_msg (OtherException m) = m"

definition is_ascii_digit :: "char \<Rightarrow> bool" where
  "is_ascii_digit c \<longleftrightarrow> CHR ''0'' \<le> c \<and> c \<le> CHR ''9''"

text \<open>\<^verbatim>\<open>int(s, 10)\<close> on a string of ASCII digits.\<close>

definition digit_value :: "char \<Rightarrow> int" where
  "digit_value c = of_char c - 48"

definition int_of_digits :: "string \<Rightarrow> int" where
  "int_of_digits s = foldl (\<lambda>a c. 10 * a + digit_value c) 0 s"

text \<open>
  \<^verbatim>\<open>IPv4Address._parse_octet\<close> (CPython 3.9.5 and later, which reject leading zeros):
  the checks in the order of the library.
\<close>

definition parse_octet :: "string \<Rightarrow> exn + int" where
  "parse_octet octet_str =
     (if octet_str = [] then Inl (ValueError ''Empty octet not permitted'')
      else if \<not> list_all is_ascii_digit octet_str
        then Inl (ValueError ''Only decimal digits permitted'')
      else if 3 < length octet_str then Inl (ValueError ''At most 3 characters permitted'')
      else if octet_str \<noteq> ''0'' \<and> hd octet_str = CHR ''0''
        then Inl (ValueError ''Leading zeros are not permitted'')
      else (let octet_int = int_of_digits octet_str
            in if 255 < octet_int then Inl (ValueError ''Octet (> 255) not permitted'')
               else Inr octet_int))"

text \<open>Running a list of computations, stopping at the first exception.\<close>

fun sequence :: "(exn + 'a) list \<Rightarrow> exn + 'a list" where
  "sequence [] = Inr []"
| "sequence (Inl e # xs) = Inl e"
| "sequence (Inr v # xs) = (case sequence xs of Inl e \<Rightarrow> Inl e | Inr vs \<Rightarrow> Inr (v # vs))"

text \<open>\<^verbatim>\<open>int.from_bytes(octets, 'big')\<close>.\<close>

definition from_bytes_big :: "int list \<Rightarrow> int" where
  "from_bytes_big bs = foldl (\<lambda>a b. a * 256 + b) 0 bs"

text \<open>\<^verbatim>\<open>IPv4Address._ip_int_from_string\<close>.\<close>

definition ip_int_from_string :: "string \<Rightarrow> exn + int" where
  "ip_int_from_string ip_str =
     (if ip_str = [] then Inl (ValueError ''Address cannot be empty'')
      else (let octets = split_on CHR ''.'' ip_str
            in if length octets \<noteq> 4 then Inl (ValueError ''Expected 4 octets'')
               else (case sequence (map parse_octet octets) of
                       Inl e \<Rightarrow> Inl e
                     | Inr vs \<Rightarrow> Inr (from_bytes_big vs))))"

text \<open>\<^verbatim>\<open>IPv4Address(address)\<close> for a \<^verbatim>\<open>str\<close> argument: the integer \<^verbatim>\<open>_ip\<close>.\<close>

definition IPv4Address_init :: "string \<Rightarrow> exn + int" where
  "IPv4Address_init addr_str =
     (if CHR ''/'' \<in> set addr_str then Inl (ValueError ''Unexpected / in address'')
      else ip_int_from_string addr_str)"

text \<open>
  An address object is an IPv4 or an IPv6 address with its integer \<^verbatim>\<open>_ip\<close>. The program
  never inspects an IPv6 address beyond the three properties below and the membership
  test, so the IPv6 half of the library is a parameter: its parser and its three
  properties. Every result below holds for every such library.
\<close>

datatype ip_obj = IPv4Address int | IPv6Address int

record ipv6_lib =
  parse6 :: "string \<Rightarrow> int option"
  unspecified6 :: "int \<Rightarrow> bool"
  reserved6 :: "int \<Rightarrow> bool"
  multicast6 :: "int \<Rightarrow> bool"

text \<open>\<^verbatim>\<open>ipaddress.ip_address\<close>: IPv4 first, then IPv6, then \<^verbatim>\<open>ValueError\<close>.\<close>

definition ip_address :: "ipv6_lib \<Rightarrow> string \<Rightarrow> exn + ip_obj" where
  "ip_address L address =
     (case IPv4Address_init address of
        Inr a \<Rightarrow> Inr (IPv4Address a)
      | Inl _ \<Rightarrow>
          (case parse6 L address of
             Some b \<Rightarrow> Inr (IPv6Address b)
           | None \<Rightarrow> Inl (ValueError ''does not appear to be an IPv4 or IPv6 address'')))"

text \<open>
  A network is its network address and its prefix length; the netmask of a prefix is
  \<^verbatim>\<open>ALL_ONES ^ (ALL_ONES >> prefixlen)\<close>.
\<close>

datatype ip_net = IPv4Network int nat

definition ALL_ONES :: int where
  "ALL_ONES = 2 ^ 32 - 1"

definition netmask :: "nat \<Rightarrow> int" where
  "netmask prefixlen = xor ALL_ONES (drop_bit prefixlen ALL_ONES)"

definition ipv4 :: "int \<Rightarrow> int \<Rightarrow> int \<Rightarrow> int \<Rightarrow> int" where
  "ipv4 a b c d = from_bytes_big [a, b, c, d]"

text \<open>
  \<^verbatim>\<open>address in network\<close>: false when the versions differ, otherwise
  \<^verbatim>\<open>address._ip & netmask == network_address._ip\<close>.
\<close>

fun in_network :: "ip_obj \<Rightarrow> ip_net \<Rightarrow> bool" where
  "in_network (IPv4Address a) (IPv4Network n p) \<longleftrightarrow> and a (netmask p) = n"
| "in_network (IPv6Address a) (IPv4Network n p) \<longleftrightarrow> False"

fun is_unspecified :: "ipv6_lib \<Rightarrow> ip_obj \<Rightarrow> bool" where
  "is_unspecified L (IPv4Address a) \<longleftrightarrow> a = ipv4 0 0 0 0"
| "is_unspecified L (IPv6Address a) \<longleftrightarrow> unspecified6 L a"

fun is_reserved :: "ipv6_lib \<Rightarrow> ip_obj \<Rightarrow> bool" where
  "is_reserved L (IPv4Address a) \<longleftrightarrow> in_network (IPv4Address a) (IPv4Network (ipv4 240 0 0 0) 4)"
| "is_reserved L (IPv6Address a) \<longleftrightarrow> reserved6 L a"

fun is_multicast :: "ipv6_lib \<Rightarrow> ip_obj \<Rightarrow> bool" where
  "is_multicast L (IPv4Address a) \<longleftrightarrow> in_network (IPv4Address a) (IPv4Network (ipv4 224 0 0 0) 4)"
| "is_multicast L (IPv6Address a) \<longleftrightarrow> multicast6 L a"

subsection \<open>\<^verbatim>\<open>IPExtractor\<close>\<close>

definition PRIVATE_NETWORKS :: "ip_net list" where
  "PRIVATE_NETWORKS =
     [IPv4Network (ipv4 10 0 0 0) 8,
      IPv4Network (ipv4 172 16 0 0) 12,
      IPv4Network (ipv4 192 168 0 0) 16]"

text \<open>
  \<^verbatim>\<open>validate_ip\<close>: the body runs under \<^verbatim>\<open>try\<close>; \<^verbatim>\<open>except ValueError\<close> turns a
  \<^verbatim>\<open>ValueError\<close> into \<^verbatim>\<open>False\<close> and lets any other exception through.
\<close>

definition validate_ip :: "ipv6_lib \<Rightarrow> string \<Rightarrow> exn + bool" where
  "validate_ip L ip =
     (case ip_address L ip of
        Inr ip_obj \<Rightarrow>
          Inr (\<not> (is_unspecified L ip_obj \<or> is_reserved L ip_obj \<or> is_multicast L ip_obj)
               \<and> list_ex (in_network ip_obj) PRIVATE_NETWORKS)
      | Inl (ValueError _) \<Rightarrow> Inr False
      | Inl e \<Rightarrow> Inl e)"

text \<open>
  \<^verbatim>\<open>_process_chunk\<close>. The loop body adds \<open>ip\<close> to the private set when \<^verbatim>\<open>validate_ip\<close>
  returns \<^verbatim>\<open>True\<close> and to the public set otherwise. Python visits the members of the set
  \<^verbatim>\<open>ips\<close> in an order it does not specify; the model visits them in the order of their
  first occurrence in the chunk.
\<close>

type_synonym ip_sets = "string set \<times> string set"

fun classify_step :: "ipv6_lib \<Rightarrow> string \<Rightarrow> exn + ip_sets \<Rightarrow> exn + ip_sets" where
  "classify_step L ip (Inl e) = Inl e"
| "classify_step L ip (Inr (private_ips, public_ips)) =
     (case validate_ip L ip of
        Inl e \<Rightarrow> Inl e
      | Inr True \<Rightarrow> Inr (insert ip private_ips, public_ips)
      | Inr False \<Rightarrow> Inr (private_ips, insert ip public_ips))"

definition scan :: "bytes \<Rightarrow> string list" where
  "scan chunk = map decode_utf8_ignore (findall IP_PATTERN chunk)"

definition process_chunk :: "ipv6_lib \<Rightarrow> bytes \<Rightarrow> exn + ip_sets" where
  "process_chunk L chunk = fold (classify_step L) (remdups (scan chunk)) (Inr ({}, {}))"

subsection \<open>The environment of a run\<close>

text \<open>
  What \<^verbatim>\<open>extract_ips_from_file\<close> sees of the outside world. The file system is a snapshot:
  a path names nothing, a regular file with its contents, or something that is not a
  regular file (with the size that \<^verbatim>\<open>stat\<close> reports). Every operation inside the
  \<^verbatim>\<open>try\<close> block may raise: opening the file, creating the pool, the \<open>k\<close>-th call of
  \<^verbatim>\<open>file.read\<close>, the \<open>k\<close>-th call of \<^verbatim>\<open>executor.submit\<close>, and the \<open>k\<close>-th worker (whose
  exception \<^verbatim>\<open>future.result()\<close> raises again). \<open>finish_time\<close> is the moment at which the
  \<open>k\<close>-th future completes; \<^verbatim>\<open>as_completed\<close> yields the futures by that moment.
\<close>

datatype node = RegularFile bytes | NotRegular nat

record world =
  fs :: "string \<Rightarrow> node option"
  open_fault :: "exn option"
  pool_fault :: "exn option"
  read_fault :: "nat \<Rightarrow> exn option"
  submit_fault :: "nat \<Rightarrow> exn option"
  worker_fault :: "nat \<Rightarrow> exn option"
  finish_time :: "nat \<Rightarrow> nat"

definition isfile :: "world \<Rightarrow> string \<Rightarrow> bool" where
  "isfile w path = (case fs w path of Some (RegularFile _) \<Rightarrow> True | _ \<Rightarrow> False)"

definition getsize :: "world \<Rightarrow> string \<Rightarrow> exn + nat" where
  "getsize w path =
     (case fs w path of
        None \<Rightarrow> Inl (OtherException ''No such file or directory'')
      | Some (RegularFile data) \<Rightarrow> Inr (length data)
      | Some (NotRegular n) \<Rightarrow> Inr n)"

text \<open>\<^verbatim>\<open>open(file_path, 'rb')\<close>: the contents that the file object will deliver.\<close>

definition open_rb :: "world \<Rightarrow> string \<Rightarrow> exn + bytes" where
  "open_rb w path =
     (case open_fault w of
        Some e \<Rightarrow> Inl e
      | None \<Rightarrow>
          (case fs w path of
             Some (RegularFile data) \<Rightarrow> Inr data
           | Some (NotRegular _) \<Rightarrow> Inl (OtherException ''Is a directory'')
           | None \<Rightarrow> Inl (OtherException ''No such file or directory'')))"

text \<open>
  \<^verbatim>\<open>file.read(n)\<close> on the unread rest of the file: at most \<open>n\<close> bytes, and all of them
  when \<open>n\<close> is negative.
\<close>

definition file_read :: "int \<Rightarrow> bytes \<Rightarrow> bytes" where
  "file_read n rest = (if n < 0 then rest else take (nat n) rest)"

text \<open>
  The \<^verbatim>\<open>while True\<close> loop: read a chunk, stop at the empty chunk, submit the chunk.
  The result is the list of submitted chunks, one per future, in submission order.
\<close>

function read_chunks :: "world \<Rightarrow> int \<Rightarrow> bytes \<Rightarrow> nat \<Rightarrow> exn + bytes list" where
  "read_chunks w chunk_size rest k =
     (case read_fault w k of
        Some e \<Rightarrow> Inl e
      | None \<Rightarrow>
          (let chunk = file_read chunk_size rest
           in if chunk = [] then Inr []
              else (case submit_fault w k of
                      Some e \<Rightarrow> Inl e
                    | None \<Rightarrow>
                        (case read_chunks w chunk_size (drop (length chunk) rest) (Suc k) of
                           Inl e \<Rightarrow> Inl e
                         | Inr chunks \<Rightarrow> Inr (chunk # chunks)))))"
  by pat_completeness auto
termination
  by (relation "measure (\<lambda>(w, n, rest, k). length rest)") (auto simp: file_read_def)

text \<open>\<^verbatim>\<open>future.result()\<close> of the \<open>k\<close>-th future.\<close>

definition future_result :: "ipv6_lib \<Rightarrow> world \<Rightarrow> bytes list \<Rightarrow> nat \<Rightarrow> exn + ip_sets" where
  "future_result L w chunks k =
     (case worker_fault w k of
        Some e \<Rightarrow> Inl e
      | None \<Rightarrow> process_chunk L (chunks ! k))"

definition as_completed :: "world \<Rightarrow> nat \<Rightarrow> nat list" where
  "as_completed w n = sort_key (finish_time w) [0..<n]"

text \<open>The collecting loop: \<^verbatim>\<open>set.update\<close> is union.\<close>

fun collect :: "ipv6_lib \<Rightarrow> world \<Rightarrow> bytes list \<Rightarrow> nat list \<Rightarrow> ip_sets \<Rightarrow> exn + ip_sets" where
  "collect L w chunks [] acc = Inr acc"
| "collect L w chunks (k # ks) (private_ips, public_ips) =
     (case future_result L w chunks k of
        Inl e \<Rightarrow> Inl e
      | Inr (chunk_private, chunk_public) \<Rightarrow>
          collect L w chunks ks (private_ips \<union> chunk_private, public_ips \<union> chunk_public))"

text \<open>The body of the \<^verbatim>\<open>try\<close> block.\<close>

definition try_body :: "ipv6_lib \<Rightarrow> world \<Rightarrow> string \<Rightarrow> int \<Rightarrow> exn + ip_sets" where
  "try_body L w file_path chunk_size =
     (case open_rb w file_path of
        Inl e \<Rightarrow> Inl e
      | Inr data \<Rightarrow>
          (case pool_fault w of
             Some e \<Rightarrow> Inl e
           | None \<Rightarrow>
               (case read_chunks w chunk_size data 0 of
                  Inl e \<Rightarrow> Inl e
                | Inr chunks \<Rightarrow>
                    collect L w chunks (as_completed w (length chunks)) ({}, {}))))"

text \<open>
  \<^verbatim>\<open>extract_ips_from_file\<close>. A run either raises (\<open>Inl\<close>) or returns the two lists together
  with the messages it passed to \<^verbatim>\<open>logging.error\<close>. \<^verbatim>\<open>os.path.getsize\<close> is called outside
  the \<^verbatim>\<open>try\<close> block and only when \<^verbatim>\<open>os.path.isfile\<close> holds.
\<close>

type_synonym run_result = "(string list \<times> string list) \<times> string list"

definition extract_ips_from_file :: "ipv6_lib \<Rightarrow> world \<Rightarrow> string \<Rightarrow> int \<Rightarrow> exn + run_result" where
  "extract_ips_from_file L w file_path chunk_size =
     (if \<not> isfile w file_path then Inr (([], []), [''Invalid file: '' @ file_path])
      else (case getsize w file_path of
              Inl e \<Rightarrow> Inl e
            | Inr sz \<Rightarrow>
                (if sz = 0 then Inr (([], []), [''Invalid file: '' @ file_path])
                 else (case try_body L w file_path chunk_size of
                         Inl e \<Rightarrow> Inr (([], []), [''Processing error: '' @ exn_msg e])
                       | Inr (private_ips, public_ips) \<Rightarrow>
                           Inr ((sorted_list_of_set private_ips,
                                 sorted_list_of_set public_ips), [])))))"

section \<open>Notions used to state the properties\<close>

text \<open>\<open>is_private\<close>: \<^verbatim>\<open>validate_ip\<close> returns \<^verbatim>\<open>True\<close>.\<close>

definition is_private :: "ipv6_lib \<Rightarrow> string \<Rightarrow> bool" where
  "is_private L ip \<longleftrightarrow> validate_ip L ip = Inr True"

text \<open>The chunks that the reading loop produces when nothing raises.\<close>

function chunks_of :: "int \<Rightarrow> bytes \<Rightarrow> bytes list" where
  "chunks_of n rest =
     (let chunk = file_read n rest
      in if chunk = [] then [] else chunk # chunks_of n (drop (length chunk) rest))"
  by pat_completeness auto
termination
  by (relation "measure (\<lambda>(n, rest). length rest)") (auto simp: file_read_def)

text \<open>The candidates of a chunk that the loop of \<^verbatim>\<open>_process_chunk\<close> sends to either set.\<close>

definition private_of :: "ipv6_lib \<Rightarrow> bytes \<Rightarrow> string set" where
  "private_of L chunk = {x \<in> set (scan chunk). is_private L x}"

definition public_of :: "ipv6_lib \<Rightarrow> bytes \<Rightarrow> string set" where
  "public_of L chunk = {x \<in> set (scan chunk). \<not> is_private L x}"

text \<open>
  No operation of a run over \<open>n\<close> chunks raises: the run opens the file, creates the pool,
  calls \<^verbatim>\<open>read\<close> \<open>n + 1\<close> times (the last call returns the empty chunk), submits \<open>n\<close>
  chunks and asks \<open>n\<close> futures for their result.
\<close>

definition fault_free :: "world \<Rightarrow> nat \<Rightarrow> bool" where
  "fault_free w n \<longleftrightarrow>
     open_fault w = None \<and> pool_fault w = None \<and>
     (\<forall>k \<le> n. read_fault w k = None) \<and>
     (\<forall>k < n. submit_fault w k = None) \<and>
     (\<forall>k < n. worker_fault w k = None)"

text \<open>The lexicographic order of strings, byte by byte; a proper prefix comes first.\<close>

fun str_less :: "string \<Rightarrow> string \<Rightarrow> bool" where
  "str_less [] [] \<longleftrightarrow> False"
| "str_less [] (y # ys) \<longleftrightarrow> True"
| "str_less (x # xs) [] \<longleftrightarrow> False"
| "str_less (x # xs) (y # ys) \<longleftrightarrow>
     (of_char x :: nat) < of_char y \<or> (x = y \<and> str_less xs ys)"

text \<open>
  Concrete environments for running the model: an \<^verbatim>\<open>ipaddress\<close> library whose IPv6 parser
  accepts nothing, and a world without faults that holds one file, \<^verbatim>\<open>data/access.log\<close>,
  and completes the futures in the order of their submission.
\<close>

definition ipv4_only :: ipv6_lib where
  "ipv4_only =
     \<lparr>parse6 = (\<lambda>_. None), unspecified6 = (\<lambda>_. False),
      reserved6 = (\<lambda>_. False), multicast6 = (\<lambda>_. False)\<rparr>"

definition log_world :: "bytes \<Rightarrow> world" where
  "log_world data =
     \<lparr>fs = (\<lambda>p. if p = ''data/access.log'' then Some (RegularFile data) else None),
      open_fault = None, pool_fault = None,
      read_fault = (\<lambda>_. None), submit_fault = (\<lambda>_. None), worker_fault = (\<lambda>_. None),
      finish_time = (\<lambda>k. k)\<rparr>"

text \<open>The same world with one file of two chunks (at chunk size 8) whose second worker dies.\<close>

definition broken_world :: world where
  "broken_world =
     (log_world ''10.0.0.5 8.8.8.8'')
       \<lparr>worker_fault := (\<lambda>k. if k = 1 then Some (OtherException ''worker died'') else None)\<rparr>"

text \<open>
  The three private ranges, the loopback range and the link-local range, as intervals of
  the 32-bit address.
\<close>

definition rfc1918 :: "int \<Rightarrow> bool" where
  "rfc1918 a \<longleftrightarrow>
     (ipv4 10 0 0 0 \<le> a \<and> a \<le> ipv4 10 255 255 255) \<or>
     (ipv4 172 16 0 0 \<le> a \<and> a \<le> ipv4 172 31 255 255) \<or>
     (ipv4 192 168 0 0 \<le> a \<and> a \<le> ipv4 192 168 255 255)"

definition loopback :: "int \<Rightarrow> bool" where
  "loopback a \<longleftrightarrow> ipv4 127 0 0 0 \<le> a \<and> a \<le> ipv4 127 255 255 255"

definition link_local :: "int \<Rightarrow> bool" where
  "link_local a \<longleftrightarrow> ipv4 169 254 0 0 \<le> a \<and> a \<le> ipv4 169 254 255 255"

text \<open>The distinct candidates that the scanner finds in the chunks of a file.\<close>

definition candidates :: "int \<Rightarrow> bytes \<Rightarrow> string set" where
  "candidates n data = (\<Union>c \<in> set (chunks_of n data). set (scan c))"

text \<open>
  An address that the specification excludes from both results: the string does not parse,
  or it parses as the unspecified address, a reserved address or a multicast address.
\<close>

definition is_excluded :: "ipv6_lib \<Rightarrow> string \<Rightarrow> bool" where
  "is_excluded L ip =
     (case ip_address L ip of
        Inl _ \<Rightarrow> True
      | Inr ip_obj \<Rightarrow>
          is_unspecified L ip_obj \<or> is_reserved L ip_obj \<or> is_multicast L ip_obj)"

subsection \<open>The grammar of an IPv4 literal\<close>

text \<open>
  Four groups of one to three decimal digits, each with a value of at most 255, separated
  by three dots and nothing else.
\<close>

definition octet_group :: "string \<Rightarrow> bool" where
  "octet_group g \<longleftrightarrow>
     1 \<le> length g \<and> length g \<le> 3 \<and> list_all is_ascii_digit g \<and> int_of_digits g \<le> 255"

definition ipv4_literal :: "string \<Rightarrow> bool" where
  "ipv4_literal t \<longleftrightarrow>
     (case split_on CHR ''.'' t of
        [a, b, c, d] \<Rightarrow> octet_group a \<and> octet_group b \<and> octet_group c \<and> octet_group d
      | _ \<Rightarrow> False)"

text \<open>
  An occurrence of a literal in a buffer that the scanner can report: the bytes from \<open>i\<close> up
  to \<open>e\<close> are a literal, and neither the byte before \<open>i\<close> nor the byte at \<open>e\<close> is a word byte
  (the start and the end of the buffer are never word bytes).
\<close>

definition token_at :: "bytes \<Rightarrow> nat \<Rightarrow> nat \<Rightarrow> bool" where
  "token_at s i e \<longleftrightarrow>
     i < e \<and> e \<le> length s \<and> ipv4_literal (slice s i e) \<and>
     \<not> word_before s i \<and> \<not> word_after s e"

subsection \<open>The language of a pattern\<close>

text \<open>
  The byte strings that a pattern matches, with \<^verbatim>\<open>\b\<close> read as the empty string;
  \<open>spans A s i\<close> are the end positions of the members of \<open>A\<close> that start at \<open>i\<close> in \<open>s\<close>.
  \<open>ip_body\<close> is \<^verbatim>\<open>IP_PATTERN\<close> without its two word boundaries.
\<close>

primrec pow :: "nat \<Rightarrow> string set \<Rightarrow> string set" where
  "pow 0 A = {[]}"
| "pow (Suc n) A = {x @ y | x y. x \<in> A \<and> y \<in> pow n A}"

primrec lang :: "re \<Rightarrow> string set" where
  "lang (Lit c) = {[c]}"
| "lang (Range a b) = {[c] | c. a \<le> c \<and> c \<le> b}"
| "lang (Cls cs) = {[c] | c. c \<in> set cs}"
| "lang (Seq r1 r2) = {x @ y | x y. x \<in> lang r1 \<and> y \<in> lang r2}"
| "lang (Alt r1 r2) = lang r1 \<union> lang r2"
| "lang (Opt r) = insert [] (lang r)"
| "lang (Times n r) = pow n (lang r)"
| "lang WordB = {[]}"

primrec no_wordb :: "re \<Rightarrow> bool" where
  "no_wordb (Lit c) \<longleftrightarrow> True"
| "no_wordb (Range a b) \<longleftrightarrow> True"
| "no_wordb (Cls cs) \<longleftrightarrow> True"
| "no_wordb (Seq r1 r2) \<longleftrightarrow> no_wordb r1 \<and> no_wordb r2"
| "no_wordb (Alt r1 r2) \<longleftrightarrow> no_wordb r1 \<and> no_wordb r2"
| "no_wordb (Opt r) \<longleftrightarrow> no_wordb r"
| "no_wordb (Times n r) \<longleftrightarrow> no_wordb r"
| "no_wordb WordB \<longleftrightarrow> False"

definition spans :: "string set \<Rightarrow> bytes \<Rightarrow> nat \<Rightarrow> nat set" where
  "spans A s i = {e. i \<le> e \<and> e \<le> length s \<and> slice s i e \<in> A}"

definition ip_body :: re where
  "ip_body = Seq (Times 3 (Seq octet_re (Lit CHR ''.''))) octet_re"

subsection \<open>Splitting a file into chunks\<close>








section \<open>Properties\<close>

subsection \<open>The classifier never raises\<close>

lemma ip_address_raises_ValueError:
  "ip_address L s = Inl e \<Longrightarrow> \<exists>m. e = ValueError m"
  by (auto simp: ip_address_def split: sum.splits option.splits)

lemma validate_ip_returns: "validate_ip L s = Inr (is_private L s)"
proof (cases "ip_address L s")
  case (Inl e)
  then obtain m where "e = ValueError m"
    using ip_address_raises_ValueError by blast
  with Inl show ?thesis
    by (simp add: validate_ip_def is_private_def)
next
  case (Inr obj)
  then show ?thesis
    by (simp add: validate_ip_def is_private_def)
qed

text \<open>
  C9. For every string, also a non-numeric or an out-of-range one, \<^verbatim>\<open>validate_ip\<close> returns
  a Boolean and never raises: the only exception its body can raise is the \<^verbatim>\<open>ValueError\<close>
  of \<^verbatim>\<open>ip_address\<close>, which the handler turns into \<^verbatim>\<open>False\<close>. The result is a function of
  the string (and of the library), so two calls on the same string agree.
\<close>

theorem validate_ip_total: "\<exists>b. validate_ip L s = Inr b"
  using validate_ip_returns by blast

subsection \<open>A chunk is split by the classifier\<close>

lemma fold_classify_step:
  "fold (classify_step L) xs (Inr (P, Q)) =
     Inr (P \<union> {x \<in> set xs. is_private L x}, Q \<union> {x \<in> set xs. \<not> is_private L x})"
proof (induction xs arbitrary: P Q)
  case Nil
  show ?case by simp
next
  case (Cons x xs)
  show ?case
    by (cases "is_private L x") (auto simp: validate_ip_returns Cons.IH)
qed

lemma process_chunk_sets: "process_chunk L chunk = Inr (private_of L chunk, public_of L chunk)"
  by (simp add: process_chunk_def fold_classify_step private_of_def public_of_def)

text \<open>The order in which the loop visits the candidates does not matter.\<close>

lemma process_chunk_any_order:
  "set xs = set (scan chunk) \<Longrightarrow>
   fold (classify_step L) xs (Inr ({}, {})) = process_chunk L chunk"
  by (simp add: process_chunk_sets fold_classify_step private_of_def public_of_def)

lemma finite_private_of [simp]: "finite (private_of L c)"
  by (simp add: private_of_def)

lemma finite_public_of [simp]: "finite (public_of L c)"
  by (simp add: public_of_def)

subsection \<open>The reading loop\<close>

declare chunks_of.simps [simp del]
declare read_chunks.simps [simp del]

lemma read_chunks_Inr:
  "read_chunks w n rest k = Inr cs \<Longrightarrow> cs = chunks_of n rest"
proof (induction w n rest k arbitrary: cs rule: read_chunks.induct)
  case (1 w n rest k)
  show ?case
  proof (cases "file_read n rest = []")
    case True
    with "1.prems" show ?thesis
      by (subst chunks_of.simps, subst (asm) read_chunks.simps)
         (auto split: option.splits)
  next
    case False
    with "1.prems" obtain cs' where
      rf: "read_fault w k = None" and sf: "submit_fault w k = None" and
      rec: "read_chunks w n (drop (length (file_read n rest)) rest) (Suc k) = Inr cs'" and
      cs: "cs = file_read n rest # cs'"
      by (subst (asm) read_chunks.simps) (auto simp: Let_def split: option.splits sum.splits)
    from "1.IH"[OF rf refl False sf rec] have "cs' = chunks_of n (drop (length (file_read n rest)) rest)" .
    with cs False show ?thesis
      by (subst chunks_of.simps) (simp add: Let_def)
  qed
qed

lemma read_chunks_no_fault:
  "(\<forall>j \<le> length (chunks_of n rest). read_fault w (k + j) = None) \<Longrightarrow>
   (\<forall>j < length (chunks_of n rest). submit_fault w (k + j) = None) \<Longrightarrow>
   read_chunks w n rest k = Inr (chunks_of n rest)"
proof (induction w n rest k rule: read_chunks.induct)
  case (1 w n rest k)
  from "1.prems"(1) have rf: "read_fault w k = None"
    by (metis add.right_neutral le0)
  show ?case
  proof (cases "file_read n rest = []")
    case True
    with rf show ?thesis
      by (subst chunks_of.simps, subst read_chunks.simps) simp
  next
    case False
    let ?rest = "drop (length (file_read n rest)) rest"
    have len: "length (chunks_of n rest) = Suc (length (chunks_of n ?rest))"
      using False by (subst chunks_of.simps) (simp add: Let_def)
    from "1.prems"(2) len have sf: "submit_fault w k = None"
      by (metis add.right_neutral zero_less_Suc)
    have a: "\<forall>j \<le> length (chunks_of n ?rest). read_fault w (Suc k + j) = None"
    proof (intro allI impI)
      fix j assume "j \<le> length (chunks_of n ?rest)"
      then have "Suc j \<le> length (chunks_of n rest)" using len by simp
      with "1.prems"(1) have "read_fault w (k + Suc j) = None" by blast
      then show "read_fault w (Suc k + j) = None" by simp
    qed
    have b: "\<forall>j < length (chunks_of n ?rest). submit_fault w (Suc k + j) = None"
    proof (intro allI impI)
      fix j assume "j < length (chunks_of n ?rest)"
      then have "Suc j < length (chunks_of n rest)" using len by simp
      with "1.prems"(2) have "submit_fault w (k + Suc j) = None" by blast
      then show "submit_fault w (Suc k + j) = None" by simp
    qed
    from "1.IH"[OF rf refl False sf a b]
    have "read_chunks w n ?rest (Suc k) = Inr (chunks_of n ?rest)" .
    with rf sf False show ?thesis
      by (subst chunks_of.simps, subst read_chunks.simps) (simp add: Let_def)
  qed
qed

lemma read_chunks_fault:
  "(\<exists>j \<le> length (chunks_of n rest). read_fault w (k + j) \<noteq> None) \<or>
   (\<exists>j < length (chunks_of n rest). submit_fault w (k + j) \<noteq> None) \<Longrightarrow>
   \<exists>e. read_chunks w n rest k = Inl e"
proof (induction w n rest k rule: read_chunks.induct)
  case (1 w n rest k)
  show ?case
  proof (cases "read_fault w k")
    case (Some e)
    then show ?thesis by (subst read_chunks.simps) simp
  next
    case rf: None
    show ?thesis
    proof (cases "file_read n rest = []")
      case True
      then have "chunks_of n rest = []" by (subst chunks_of.simps) simp
      with "1.prems" rf show ?thesis by simp
    next
      case False
      let ?rest = "drop (length (file_read n rest)) rest"
      have len: "length (chunks_of n rest) = Suc (length (chunks_of n ?rest))"
        using False by (subst chunks_of.simps) (simp add: Let_def)
      show ?thesis
      proof (cases "submit_fault w k")
        case (Some e)
        with rf False show ?thesis by (subst read_chunks.simps) (simp add: Let_def)
      next
        case sf: None
        from "1.prems" have
          "(\<exists>j \<le> length (chunks_of n ?rest). read_fault w (Suc k + j) \<noteq> None) \<or>
           (\<exists>j < length (chunks_of n ?rest). submit_fault w (Suc k + j) \<noteq> None)"
        proof (elim disjE exE conjE)
          fix j assume j: "j \<le> length (chunks_of n rest)" "read_fault w (k + j) \<noteq> None"
          with rf have "j \<noteq> 0" by (metis add.right_neutral)
          then obtain j' where "j = Suc j'" by (cases j) auto
          with j len show ?thesis by auto
        next
          fix j assume j: "j < length (chunks_of n rest)" "submit_fault w (k + j) \<noteq> None"
          with sf have "j \<noteq> 0" by (metis add.right_neutral)
          then obtain j' where "j = Suc j'" by (cases j) auto
          with j len show ?thesis by auto
        qed
        from "1.IH"[OF rf refl False sf this]
        obtain e where "read_chunks w n ?rest (Suc k) = Inl e" by blast
        with rf sf False show ?thesis
          by (subst read_chunks.simps) (simp add: Let_def)
      qed
    qed
  qed
qed

subsection \<open>The collecting loop and the body of the run\<close>

lemma set_as_completed: "set (as_completed w n) = {0..<n}"
  by (simp add: as_completed_def)

lemma collect_no_fault:
  "\<forall>k \<in> set ks. worker_fault w k = None \<Longrightarrow>
   collect L w chunks ks (P, Q) =
     Inr (P \<union> (\<Union>k \<in> set ks. private_of L (chunks ! k)),
          Q \<union> (\<Union>k \<in> set ks. public_of L (chunks ! k)))"
proof (induction ks arbitrary: P Q)
  case Nil
  show ?case by simp
next
  case (Cons k ks)
  then show ?case
    by (simp add: future_result_def process_chunk_sets Un_assoc)
qed

lemma collect_fault:
  "\<exists>k \<in> set ks. worker_fault w k \<noteq> None \<Longrightarrow> \<exists>e. collect L w chunks ks (P, Q) = Inl e"
proof (induction ks arbitrary: P Q)
  case Nil
  then show ?case by simp
next
  case (Cons k ks)
  show ?case
  proof (cases "worker_fault w k")
    case (Some e)
    then show ?thesis by (simp add: future_result_def)
  next
    case None
    with Cons.prems have "\<exists>k \<in> set ks. worker_fault w k \<noteq> None" by auto
    from Cons.IH[OF this] None show ?thesis
      by (simp add: future_result_def process_chunk_sets)
  qed
qed

lemma Union_nth_upt: "(\<Union>k \<in> {0..<length xs}. f (xs ! k)) = (\<Union>x \<in> set xs. f x)"
proof -
  have "(\<lambda>k. xs ! k) ` {0..<length xs} = set xs"
    by (auto simp: in_set_conv_nth)
  then have "(\<Union>x \<in> set xs. f x) = (\<Union>x \<in> (\<lambda>k. xs ! k) ` {0..<length xs}. f x)"
    by simp
  then show ?thesis by simp
qed

lemma try_body_ok:
  assumes "fs w p = Some (RegularFile data)"
    and "fault_free w (length (chunks_of n data))"
  shows "try_body L w p n =
           Inr (\<Union>c \<in> set (chunks_of n data). private_of L c,
                \<Union>c \<in> set (chunks_of n data). public_of L c)"
proof -
  let ?cs = "chunks_of n data"
  from assms(2) have rc: "read_chunks w n data 0 = Inr ?cs"
    by (intro read_chunks_no_fault) (auto simp: fault_free_def)
  from assms(2) have "\<forall>k \<in> set (as_completed w (length ?cs)). worker_fault w k = None"
    by (simp add: set_as_completed fault_free_def)
  from collect_no_fault[OF this, of L ?cs "{}" "{}"]
  have "collect L w ?cs (as_completed w (length ?cs)) ({}, {}) =
          Inr (\<Union>c \<in> set ?cs. private_of L c, \<Union>c \<in> set ?cs. public_of L c)"
    by (simp add: set_as_completed Union_nth_upt)
  with assms rc show ?thesis
    by (simp add: try_body_def open_rb_def fault_free_def)
qed

lemma try_body_fault:
  assumes "fs w p = Some (RegularFile data)"
    and "\<not> fault_free w (length (chunks_of n data))"
  shows "\<exists>e. try_body L w p n = Inl e"
proof (cases "open_fault w = None \<and> pool_fault w = None")
  case False
  with assms(1) show ?thesis
    by (auto simp: try_body_def open_rb_def split: option.splits)
next
  case True
  let ?cs = "chunks_of n data"
  show ?thesis
  proof (cases "read_chunks w n data 0")
    case (Inl e)
    with True assms(1) show ?thesis
      by (simp add: try_body_def open_rb_def)
  next
    case (Inr cs)
    then have cs: "cs = ?cs" by (rule read_chunks_Inr)
    have nf: "\<not> ((\<exists>j \<le> length ?cs. read_fault w (0 + j) \<noteq> None) \<or>
                 (\<exists>j < length ?cs. submit_fault w (0 + j) \<noteq> None))"
    proof
      assume "(\<exists>j \<le> length ?cs. read_fault w (0 + j) \<noteq> None) \<or>
              (\<exists>j < length ?cs. submit_fault w (0 + j) \<noteq> None)"
      from read_chunks_fault[OF this] Inr show False by simp
    qed
    then have "(\<forall>k \<le> length ?cs. read_fault w k = None) \<and>
               (\<forall>k < length ?cs. submit_fault w k = None)"
      by simp
    with assms(2) True have "\<exists>k < length ?cs. worker_fault w k \<noteq> None"
      unfolding fault_free_def by blast
    then have "\<exists>k \<in> set (as_completed w (length ?cs)). worker_fault w k \<noteq> None"
      by (auto simp: set_as_completed)
    from collect_fault[OF this] obtain e where
      "collect L w ?cs (as_completed w (length ?cs)) ({}, {}) = Inl e" by blast
    with True assms(1) Inr cs show ?thesis
      by (simp add: try_body_def open_rb_def)
  qed
qed

subsection \<open>The outcome of a run\<close>

lemma extract_invalid:
  "(\<forall>data. fs w path \<noteq> Some (RegularFile data)) \<or> fs w path = Some (RegularFile []) \<Longrightarrow>
   extract_ips_from_file L w path chunk_size = Inr (([], []), [''Invalid file: '' @ path])"
  by (auto simp: extract_ips_from_file_def isfile_def getsize_def split: option.splits node.splits)


lemma extract_failure:
  assumes "fs w path = Some (RegularFile data)" and "data \<noteq> []"
    and "\<not> fault_free w (length (chunks_of n data))"
  shows "\<exists>e. extract_ips_from_file L w path n =
           Inr (([], []), [''Processing error: '' @ exn_msg e])"
proof -
  from try_body_fault[OF assms(1,3), of L] obtain e where "try_body L w path n = Inl e"
    by blast
  with assms(1,2) show ?thesis
    by (auto simp: extract_ips_from_file_def isfile_def getsize_def)
qed

lemma try_body_Inr:
  assumes "fs w path = Some (RegularFile data)" and "try_body L w path n = Inr (P, Q)"
  shows "P = (\<Union>c \<in> set (chunks_of n data). private_of L c) \<and>
         Q = (\<Union>c \<in> set (chunks_of n data). public_of L c)"
proof (cases "fault_free w (length (chunks_of n data))")
  case True
  from try_body_ok[OF assms(1) True, of L] assms(2) show ?thesis by simp
next
  case False
  from try_body_fault[OF assms(1) False, of L] assms(2) show ?thesis by simp
qed

lemma extract_cases:
  assumes "extract_ips_from_file L w path n = Inr ((private_ips, public_ips), log)"
  shows "(private_ips = [] \<and> public_ips = [] \<and> log \<noteq> []) \<or>
         (\<exists>data. fs w path = Some (RegularFile data) \<and> data \<noteq> [] \<and> log = [] \<and>
            try_body L w path n =
               Inr (\<Union>c \<in> set (chunks_of n data). private_of L c,
                    \<Union>c \<in> set (chunks_of n data). public_of L c) \<and>
            private_ips = sorted_list_of_set (\<Union>c \<in> set (chunks_of n data). private_of L c) \<and>
            public_ips = sorted_list_of_set (\<Union>c \<in> set (chunks_of n data). public_of L c))"
proof (cases "fs w path")
  case None
  with assms show ?thesis
    by (auto simp: extract_ips_from_file_def isfile_def)
next
  case (Some nd)
  show ?thesis
  proof (cases nd)
    case (NotRegular k)
    with Some assms show ?thesis
      by (auto simp: extract_ips_from_file_def isfile_def)
  next
    case (RegularFile data)
    show ?thesis
    proof (cases "data = []")
      case True
      with Some RegularFile assms show ?thesis
        by (auto simp: extract_ips_from_file_def isfile_def getsize_def)
    next
      case False
      show ?thesis
      proof (cases "try_body L w path n")
        case (Inl e)
        with Some RegularFile False assms show ?thesis
          by (auto simp: extract_ips_from_file_def isfile_def getsize_def)
      next
        case (Inr PQ)
        obtain P Q where PQ: "PQ = (P, Q)" by (cases PQ)
        from try_body_Inr[of w path data L n P Q] Some RegularFile Inr PQ
        have "P = (\<Union>c \<in> set (chunks_of n data). private_of L c)"
          "Q = (\<Union>c \<in> set (chunks_of n data). public_of L c)" by auto
        with Some RegularFile False Inr PQ assms show ?thesis
          by (auto simp: extract_ips_from_file_def isfile_def getsize_def)
      qed
    qed
  qed
qed

text \<open>
  C8. When the path does not name an existing regular file, or names a regular file of size
  zero, \<^verbatim>\<open>extract_ips_from_file\<close> does not raise: it returns two empty lists and logs one
  error, \<^verbatim>\<open>Invalid file: <path>\<close>.
\<close>

theorem invalid_file_recoverable:
  assumes "(\<forall>data. fs w path \<noteq> Some (RegularFile data)) \<or> fs w path = Some (RegularFile [])"
  shows "extract_ips_from_file L w path chunk_size = Inr (([], []), [''Invalid file: '' @ path])"
  using assms by (rule extract_invalid)

theorem invalid_file_recoverable_witness:
  "((\<forall>data. fs (log_world []) ''data/access.log'' \<noteq> Some (RegularFile data))
     \<or> fs (log_world []) ''data/access.log'' = Some (RegularFile [])) \<and>
   extract_ips_from_file ipv4_only (log_world []) ''data/access.log'' 1048576
     = Inr (([], []), [''Invalid file: data/access.log''])"
proof -
  have h: "(\<forall>data. fs (log_world []) ''data/access.log'' \<noteq> Some (RegularFile data))
     \<or> fs (log_world []) ''data/access.log'' = Some (RegularFile [])"
    by (simp add: log_world_def)
  from invalid_file_recoverable[OF h, of ipv4_only 1048576] h show ?thesis by simp
qed

text \<open>
  C7. When the file passes the check and some operation of the run raises (opening the
  file, creating the pool, a \<^verbatim>\<open>read\<close>, a \<^verbatim>\<open>submit\<close> or a worker), the run stops at the
  first exception it meets: it returns two empty lists, whatever the other workers found,
  and logs one error, \<^verbatim>\<open>Processing error: <message>\<close>. Nothing is tried again.
\<close>

theorem processing_error_aborts:
  assumes "fs w path = Some (RegularFile data)" and "data \<noteq> []"
    and "\<not> fault_free w (length (chunks_of chunk_size data))"
  shows "\<exists>e. extract_ips_from_file L w path chunk_size =
           Inr (([], []), [''Processing error: '' @ exn_msg e])"
  using assms by (rule extract_failure)

theorem processing_error_aborts_witness:
  "fs broken_world ''data/access.log'' = Some (RegularFile ''10.0.0.5 8.8.8.8'') \<and>
   ''10.0.0.5 8.8.8.8'' \<noteq> [] \<and>
   \<not> fault_free broken_world (length (chunks_of 8 ''10.0.0.5 8.8.8.8'')) \<and>
   extract_ips_from_file ipv4_only broken_world ''data/access.log'' 8 =
     Inr (([], []), [''Processing error: worker died''])"
proof -
  have f: "fs broken_world ''data/access.log'' = Some (RegularFile ''10.0.0.5 8.8.8.8'')"
    by (simp add: broken_world_def log_world_def)
  have n: "''10.0.0.5 8.8.8.8'' \<noteq> []" by simp
  have len: "length (chunks_of 8 ''10.0.0.5 8.8.8.8'') = 2" by code_simp
  have "worker_fault broken_world 1 \<noteq> None" by (simp add: broken_world_def)
  then have "\<not> (\<forall>k < 2. worker_fault broken_world k = None)"
    by (metis one_less_numeral_iff semiring_norm(76))
  then have ff: "\<not> fault_free broken_world (length (chunks_of 8 ''10.0.0.5 8.8.8.8''))"
    by (simp add: fault_free_def len)
  have run: "extract_ips_from_file ipv4_only broken_world ''data/access.log'' 8 =
     Inr (([], []), [''Processing error: worker died''])"
    by code_simp
  from processing_error_aborts[OF f n ff, of ipv4_only] f n ff run show ?thesis by simp
qed

subsection \<open>The order of the result\<close>

lemma str_less_iff: "str_less xs ys \<longleftrightarrow> xs < ys"
  by (induction xs ys rule: str_less.induct) (auto simp: less_char_def)

lemma sorted_wrt_str_less: "sorted_wrt str_less xs \<longleftrightarrow> sorted xs \<and> distinct xs"
proof -
  have "str_less = (<)" by (intro ext) (simp add: str_less_iff)
  then show ?thesis by (simp add: strict_sorted_iff)
qed

lemma sorted_wrt_str_less_sorted_list_of_set:
  "sorted_wrt str_less (sorted_list_of_set A)"
  by (simp add: sorted_wrt_str_less)

text \<open>
  C6. Each returned list is strictly ascending in the lexicographic order of strings, the
  order of the bytes and not of the numbers (\<^verbatim>\<open>100.0.0.1\<close> comes before \<^verbatim>\<open>2.2.2.2\<close>), so
  it is sorted and holds no string twice; in a run that logs no error its members are
  exactly those of the set that the run accumulated.
\<close>

theorem results_sorted_lexicographically:
  assumes "extract_ips_from_file L w path chunk_size = Inr ((private_ips, public_ips), log)"
  shows "sorted_wrt str_less private_ips \<and> sorted_wrt str_less public_ips \<and>
         (\<forall>P Q. log = [] \<and> try_body L w path chunk_size = Inr (P, Q) \<longrightarrow>
                  set private_ips = P \<and> set public_ips = Q)"
  using extract_cases[OF assms]
  by (auto simp: sorted_wrt_str_less_sorted_list_of_set)

theorem results_sorted_lexicographically_witness:
  "extract_ips_from_file ipv4_only (log_world ''2.2.2.2 100.0.0.1 9.9.9.9'')
       ''data/access.log'' 64
     = Inr (([], [''100.0.0.1'', ''2.2.2.2'', ''9.9.9.9'']), []) \<and>
   sorted_wrt str_less [''100.0.0.1'', ''2.2.2.2'', ''9.9.9.9'']"
proof -
  have h: "extract_ips_from_file ipv4_only (log_world ''2.2.2.2 100.0.0.1 9.9.9.9'')
       ''data/access.log'' 64
     = Inr (([], [''100.0.0.1'', ''2.2.2.2'', ''9.9.9.9'']), [])"
    by code_simp
  from results_sorted_lexicographically[OF h] h show ?thesis by simp
qed

subsection \<open>Membership in a network is membership in an interval\<close>

lemma netmask_and:
  assumes "0 \<le> a" "a < 2 ^ 32" "p \<le> 32"
  shows "and a (netmask p) = push_bit (32 - p) (drop_bit (32 - p) a)"
proof (rule bit_eqI)
  fix n
  have hi: "\<not> bit a n" if "32 \<le> n"
  proof -
    have "a < 2 ^ n" using assms(2) that
      by (smt (verit) power_increasing)
    then show ?thesis using assms(1)
      by (simp add: bit_iff_odd)
  qed
  have m: "ALL_ONES = mask 32" by (simp add: ALL_ONES_def mask_eq_exp_minus_1)
  show "bit (and a (netmask p)) n = bit (push_bit (32 - p) (drop_bit (32 - p) a)) n"
  proof (cases "32 \<le> n")
    case True
    with hi assms(3) show ?thesis
      by (simp add: bit_and_iff bit_push_bit_iff bit_drop_bit_eq)
  next
    case False
    with assms(3) show ?thesis
      by (auto simp: netmask_def m bit_and_iff bit_xor_iff bit_mask_iff bit_drop_bit_eq
          bit_push_bit_iff drop_bit_mask_eq)
  qed
qed

lemma div_eq_iff_range:
  fixes a d k :: int
  assumes "0 < d"
  shows "a div d = k \<longleftrightarrow> k * d \<le> a \<and> a < (k + 1) * d"
proof
  assume h: "a div d = k"
  define r where "r = a mod d"
  have "a = k * d + r" unfolding r_def using h div_mult_mod_eq[of a d] by simp
  moreover have "0 \<le> r" "r < d" unfolding r_def using assms by simp_all
  ultimately show "k * d \<le> a \<and> a < (k + 1) * d"
    by (simp add: distrib_right)
next
  assume h: "k * d \<le> a \<and> a < (k + 1) * d"
  define r where "r = a - k * d"
  have "a = d * k + r" unfolding r_def by simp
  moreover have "0 \<le> r" "r < d" unfolding r_def using h by (simp_all add: distrib_right)
  ultimately show "a div d = k"
    by (rule int_div_pos_eq)
qed

lemma in_network_range:
  assumes "0 \<le> a" "a < 2 ^ 32" "p \<le> 32"
  shows "in_network (IPv4Address a) (IPv4Network (k * 2 ^ (32 - p)) p) \<longleftrightarrow>
           k * 2 ^ (32 - p) \<le> a \<and> a < (k + 1) * 2 ^ (32 - p)"
proof -
  have "and a (netmask p) = (a div 2 ^ (32 - p)) * 2 ^ (32 - p)"
    using netmask_and[OF assms(1-3)] by (simp add: push_bit_eq_mult drop_bit_eq_div)
  moreover have "(a div 2 ^ (32 - p)) * 2 ^ (32 - p) = k * 2 ^ (32 - p) \<longleftrightarrow> a div 2 ^ (32 - p) = k"
    by simp
  ultimately show ?thesis
    using div_eq_iff_range[of "2 ^ (32 - p)" a k] by simp
qed

lemma private_10: "0 \<le> a \<Longrightarrow> a < 2 ^ 32 \<Longrightarrow>
  in_network (IPv4Address a) (IPv4Network (ipv4 10 0 0 0) 8) \<longleftrightarrow> ipv4 10 0 0 0 \<le> a \<and> a \<le> ipv4 10 255 255 255"
  using in_network_range[of a 8 10] by (simp add: ipv4_def from_bytes_big_def) arith

lemma private_172: "0 \<le> a \<Longrightarrow> a < 2 ^ 32 \<Longrightarrow>
  in_network (IPv4Address a) (IPv4Network (ipv4 172 16 0 0) 12) \<longleftrightarrow> ipv4 172 16 0 0 \<le> a \<and> a \<le> ipv4 172 31 255 255"
  using in_network_range[of a 12 "172 * 16 + 1"] by (simp add: ipv4_def from_bytes_big_def) arith

lemma private_192: "0 \<le> a \<Longrightarrow> a < 2 ^ 32 \<Longrightarrow>
  in_network (IPv4Address a) (IPv4Network (ipv4 192 168 0 0) 16) \<longleftrightarrow> ipv4 192 168 0 0 \<le> a \<and> a \<le> ipv4 192 168 255 255"
  using in_network_range[of a 16 "192 * 256 + 168"] by (simp add: ipv4_def from_bytes_big_def) arith

lemma reserved_240: "0 \<le> a \<Longrightarrow> a < 2 ^ 32 \<Longrightarrow>
  in_network (IPv4Address a) (IPv4Network (ipv4 240 0 0 0) 4) \<longleftrightarrow> ipv4 240 0 0 0 \<le> a"
  using in_network_range[of a 4 15] by (simp add: ipv4_def from_bytes_big_def)

lemma multicast_224: "0 \<le> a \<Longrightarrow> a < 2 ^ 32 \<Longrightarrow>
  in_network (IPv4Address a) (IPv4Network (ipv4 224 0 0 0) 4) \<longleftrightarrow> ipv4 224 0 0 0 \<le> a \<and> a < ipv4 240 0 0 0"
  using in_network_range[of a 4 14] by (simp add: ipv4_def from_bytes_big_def)

subsection \<open>What \<^verbatim>\<open>ip_address\<close> returns for an IPv4 literal\<close>

lemma digit_value_range: "is_ascii_digit c \<Longrightarrow> 0 \<le> digit_value c \<and> digit_value c \<le> 9"
proof -
  assume "is_ascii_digit c"
  then have "48 \<le> (of_char c :: nat) \<and> (of_char c :: nat) \<le> 57"
    by (simp add: is_ascii_digit_def less_eq_char_def)
  then have "48 \<le> int (of_char c) \<and> int (of_char c) \<le> 57" by simp
  then show ?thesis by (simp add: digit_value_def of_nat_of_char)
qed

lemma foldl_digits_nonneg:
  "list_all is_ascii_digit s \<Longrightarrow> 0 \<le> acc \<Longrightarrow>
   0 \<le> foldl (\<lambda>a c. 10 * a + digit_value c) acc s"
proof (induction s arbitrary: acc)
  case Nil
  then show ?case by simp
next
  case (Cons c s)
  from Cons.prems have "0 \<le> 10 * acc + digit_value c"
    using digit_value_range[of c] by simp
  with Cons show ?case by simp
qed

lemma parse_octet_range: "parse_octet s = Inr v \<Longrightarrow> 0 \<le> v \<and> v \<le> 255"
  using foldl_digits_nonneg[of s 0]
  by (auto simp: parse_octet_def int_of_digits_def Let_def split: if_splits)

lemma sequence_Inr:
  "sequence xs = Inr vs \<Longrightarrow> list_all2 (\<lambda>x v. x = Inr v) xs vs"
proof (induction xs arbitrary: vs rule: sequence.induct)
  case 1
  then show ?case by simp
next
  case (2 e xs)
  then show ?case by simp
next
  case (3 v xs)
  then show ?case by (auto split: sum.splits)
qed

lemma ip_int_from_string_octets:
  assumes "ip_int_from_string s = Inr a"
  shows "\<exists>g1 g2 g3 g4 v1 v2 v3 v4.
           split_on CHR ''.'' s = [g1, g2, g3, g4] \<and>
           parse_octet g1 = Inr v1 \<and> parse_octet g2 = Inr v2 \<and>
           parse_octet g3 = Inr v3 \<and> parse_octet g4 = Inr v4 \<and>
           a = ipv4 v1 v2 v3 v4"
proof -
  let ?gs = "split_on CHR ''.'' s"
  from assms have len: "length ?gs = 4"
    by (auto simp: ip_int_from_string_def Let_def split: if_splits)
  then obtain g1 g2 g3 g4 where gs: "?gs = [g1, g2, g3, g4]"
    by (auto simp: length_Suc_conv numeral_eq_Suc)
  from assms gs obtain vs where vs: "sequence (map parse_octet [g1, g2, g3, g4]) = Inr vs"
    and a: "a = from_bytes_big vs"
    by (auto simp: ip_int_from_string_def Let_def split: if_splits sum.splits)
  from sequence_Inr[OF vs] obtain v1 v2 v3 v4 where
    "vs = [v1, v2, v3, v4]" "parse_octet g1 = Inr v1" "parse_octet g2 = Inr v2"
    "parse_octet g3 = Inr v3" "parse_octet g4 = Inr v4"
    by (auto simp: list_all2_Cons1)
  with gs a show ?thesis by (auto simp: ipv4_def)
qed

lemma ipv4_range:
  assumes "0 \<le> v1 \<and> v1 \<le> 255" "0 \<le> v2 \<and> v2 \<le> 255" "0 \<le> v3 \<and> v3 \<le> 255" "0 \<le> v4 \<and> v4 \<le> 255"
  shows "0 \<le> ipv4 v1 v2 v3 v4 \<and> ipv4 v1 v2 v3 v4 < 2 ^ 32"
  using assms by (simp add: ipv4_def from_bytes_big_def)

lemma ip_address_IPv4:
  assumes "ip_address L s = Inr (IPv4Address a)"
  shows "ip_int_from_string s = Inr a"
  using assms
  by (auto simp: ip_address_def IPv4Address_init_def split: sum.splits option.splits if_splits)

lemma ip_address_IPv4_range:
  assumes "ip_address L s = Inr (IPv4Address a)"
  shows "0 \<le> a \<and> a < 2 ^ 32"
proof -
  from ip_int_from_string_octets[OF ip_address_IPv4[OF assms]]
  obtain g1 g2 g3 g4 v1 v2 v3 v4 where
    "parse_octet g1 = Inr v1" "parse_octet g2 = Inr v2"
    "parse_octet g3 = Inr v3" "parse_octet g4 = Inr v4" "a = ipv4 v1 v2 v3 v4"
    by blast
  then show ?thesis
    using ipv4_range[of v1 v2 v3 v4] parse_octet_range by blast
qed

lemma private_networks_range:
  assumes "0 \<le> a" "a < 2 ^ 32"
  shows "list_ex (in_network (IPv4Address a)) PRIVATE_NETWORKS \<longleftrightarrow> rfc1918 a"
  using assms private_10[of a] private_172[of a] private_192[of a]
  by (simp add: PRIVATE_NETWORKS_def rfc1918_def)

lemma validate_ip_IPv4:
  assumes "ip_address L s = Inr (IPv4Address a)"
  shows "validate_ip L s =
           Inr (\<not> (is_unspecified L (IPv4Address a) \<or> is_reserved L (IPv4Address a)
                    \<or> is_multicast L (IPv4Address a)) \<and> rfc1918 a)"
  using assms ip_address_IPv4_range[OF assms] private_networks_range[of a]
  by (simp add: validate_ip_def)

lemma special_ranges:
  assumes "0 \<le> a" "a < 2 ^ 32"
  shows "is_unspecified L (IPv4Address a) \<longleftrightarrow> a = 0"
    and "is_reserved L (IPv4Address a) \<longleftrightarrow> ipv4 240 0 0 0 \<le> a"
    and "is_multicast L (IPv4Address a) \<longleftrightarrow> ipv4 224 0 0 0 \<le> a \<and> a < ipv4 240 0 0 0"
  using assms reserved_240[of a] multicast_224[of a]
  by (simp_all add: ipv4_def from_bytes_big_def)

subsection \<open>Classification\<close>

text \<open>
  C1 (the code departs from the claim). \<^verbatim>\<open>0.0.0.0\<close> is the unspecified address,
  \<^verbatim>\<open>224.0.0.1\<close> a multicast address and \<^verbatim>\<open>240.0.0.1\<close> a reserved address. For each of
  them \<^verbatim>\<open>validate_ip\<close> returns \<^verbatim>\<open>False\<close>, and \<^verbatim>\<open>_process_chunk\<close> sends every candidate
  for which it returns \<^verbatim>\<open>False\<close> to the public set: all three appear in the public list
  of \<^verbatim>\<open>extract_ips_from_file\<close>.
\<close>

theorem unspecified_and_multicast_are_public:
  "ip_address L ''0.0.0.0'' = Inr (IPv4Address (ipv4 0 0 0 0)) \<and>
   is_unspecified L (IPv4Address (ipv4 0 0 0 0)) \<and>
   ip_address L ''224.0.0.1'' = Inr (IPv4Address (ipv4 224 0 0 1)) \<and>
   is_multicast L (IPv4Address (ipv4 224 0 0 1)) \<and>
   ip_address L ''240.0.0.1'' = Inr (IPv4Address (ipv4 240 0 0 1)) \<and>
   is_reserved L (IPv4Address (ipv4 240 0 0 1)) \<and>
   process_chunk L ''0.0.0.0 224.0.0.1 240.0.0.1''
     = Inr ({}, {''0.0.0.0'', ''224.0.0.1'', ''240.0.0.1''}) \<and>
   extract_ips_from_file L (log_world ''0.0.0.0 224.0.0.1 240.0.0.1'') ''data/access.log'' 64
     = Inr (([], [''0.0.0.0'', ''224.0.0.1'', ''240.0.0.1'']), [])"
  by code_simp

text \<open>
  C2. Let the string parse as the IPv4 address \<open>a\<close>. If \<open>a\<close> is not unspecified, reserved
  or multicast, then \<^verbatim>\<open>validate_ip\<close> returns \<^verbatim>\<open>True\<close> exactly when \<open>a\<close> lies in
  10.0.0.0/8, 172.16.0.0/12 or 192.168.0.0/16, and for every chunk in which the scanner
  finds the string, \<^verbatim>\<open>_process_chunk\<close> returns a pair of sets with the string in the
  private set in that case and in the public set otherwise. A loopback or link-local
  address is none of unspecified, reserved and multicast; \<^verbatim>\<open>_process_chunk\<close> returns it
  in the public set and not in the private set.
\<close>

theorem private_iff_rfc1918:
  assumes "ip_address L s = Inr (IPv4Address a)"
  shows "(\<not> is_unspecified L (IPv4Address a) \<and> \<not> is_reserved L (IPv4Address a) \<and>
          \<not> is_multicast L (IPv4Address a) \<longrightarrow>
            validate_ip L s = Inr (rfc1918 a) \<and>
            (\<forall>chunk. s \<in> set (scan chunk) \<longrightarrow>
               (\<exists>P Q. process_chunk L chunk = Inr (P, Q) \<and>
                      (s \<in> P \<longleftrightarrow> rfc1918 a) \<and> (s \<in> Q \<longleftrightarrow> \<not> rfc1918 a)))) \<and>
         (loopback a \<or> link_local a \<longrightarrow>
            \<not> is_unspecified L (IPv4Address a) \<and> \<not> is_reserved L (IPv4Address a) \<and>
            \<not> is_multicast L (IPv4Address a) \<and>
            validate_ip L s = Inr False \<and>
            (\<forall>chunk. s \<in> set (scan chunk) \<longrightarrow>
               (\<exists>P Q. process_chunk L chunk = Inr (P, Q) \<and> s \<notin> P \<and> s \<in> Q)))"
proof -
  note r = ip_address_IPv4_range[OF assms]
  note v = validate_ip_IPv4[OF assms]
  have sp: "is_unspecified L (IPv4Address a) \<longleftrightarrow> a = 0"
    "is_reserved L (IPv4Address a) \<longleftrightarrow> ipv4 240 0 0 0 \<le> a"
    "is_multicast L (IPv4Address a) \<longleftrightarrow> ipv4 224 0 0 0 \<le> a \<and> a < ipv4 240 0 0 0"
    using special_ranges[of a L] r by simp_all
  have ll: "loopback a \<or> link_local a \<Longrightarrow>
      a \<noteq> 0 \<and> \<not> ipv4 240 0 0 0 \<le> a \<and> \<not> ipv4 224 0 0 0 \<le> a \<and> \<not> rfc1918 a"
    by (auto simp: loopback_def link_local_def rfc1918_def ipv4_def from_bytes_big_def)
  show ?thesis
    using v sp ll
    by (auto simp: process_chunk_sets private_of_def public_of_def is_private_def)
qed

theorem private_iff_rfc1918_witness:
  "ip_address ipv4_only ''10.0.0.5'' = Inr (IPv4Address (ipv4 10 0 0 5)) \<and>
   validate_ip ipv4_only ''10.0.0.5'' = Inr True \<and>
   (\<exists>P Q. process_chunk ipv4_only ''GET / from 10.0.0.5'' = Inr (P, Q) \<and>
          ''10.0.0.5'' \<in> P \<and> ''10.0.0.5'' \<notin> Q) \<and>
   ip_address ipv4_only ''127.0.0.1'' = Inr (IPv4Address (ipv4 127 0 0 1)) \<and>
   loopback (ipv4 127 0 0 1) \<and>
   validate_ip ipv4_only ''127.0.0.1'' = Inr False \<and>
   (\<exists>P Q. process_chunk ipv4_only ''GET / from 127.0.0.1'' = Inr (P, Q) \<and>
          ''127.0.0.1'' \<notin> P \<and> ''127.0.0.1'' \<in> Q)"
proof -
  have a1: "ip_address ipv4_only ''10.0.0.5'' = Inr (IPv4Address (ipv4 10 0 0 5))"
    by code_simp
  have a2: "\<not> is_unspecified ipv4_only (IPv4Address (ipv4 10 0 0 5)) \<and>
            \<not> is_reserved ipv4_only (IPv4Address (ipv4 10 0 0 5)) \<and>
            \<not> is_multicast ipv4_only (IPv4Address (ipv4 10 0 0 5))"
    by code_simp
  have a3: "rfc1918 (ipv4 10 0 0 5)" by code_simp
  have a4: "''10.0.0.5'' \<in> set (scan ''GET / from 10.0.0.5'')" by code_simp
  have b1: "ip_address ipv4_only ''127.0.0.1'' = Inr (IPv4Address (ipv4 127 0 0 1))"
    by code_simp
  have b2: "loopback (ipv4 127 0 0 1) \<or> link_local (ipv4 127 0 0 1)" by code_simp
  have b3: "''127.0.0.1'' \<in> set (scan ''GET / from 127.0.0.1'')" by code_simp
  have b4: "loopback (ipv4 127 0 0 1)" by code_simp
  note ta = private_iff_rfc1918[OF a1, THEN conjunct1, THEN mp, OF a2]
  note va = ta[THEN conjunct1]
  note pa = ta[THEN conjunct2, THEN spec, THEN mp, OF a4]
  note tb = private_iff_rfc1918[OF b1, THEN conjunct2, THEN mp, OF b2]
  note vb = tb[THEN conjunct2, THEN conjunct2, THEN conjunct2, THEN conjunct1]
  note pb = tb[THEN conjunct2, THEN conjunct2, THEN conjunct2, THEN conjunct2, THEN spec, THEN mp, OF b3]
  from va a3 have va': "validate_ip ipv4_only ''10.0.0.5'' = Inr True" by simp
  from pa a3 have pa': "\<exists>P Q. process_chunk ipv4_only ''GET / from 10.0.0.5'' = Inr (P, Q) \<and>
          ''10.0.0.5'' \<in> P \<and> ''10.0.0.5'' \<notin> Q" by simp
  show ?thesis
    by (intro conjI a1 va' pa' b1 b4 vb pb)
qed

subsection \<open>Counting the candidates\<close>

lemma finite_candidates [simp]: "finite (candidates n data)"
  by (simp add: candidates_def)

text \<open>
  C4 (the code departs from the claim). The file \<^verbatim>\<open>0.0.0.0 8.8.8.8\<close> holds two distinct
  candidates, one of them the unspecified address, which is to be excluded. The run
  returns no private address and both candidates as public addresses: the two lists are
  disjoint, but the excluded address is counted among the public ones, and the number of
  private, public and excluded addresses is 0 + 2 + 1, not the number 2 of distinct
  candidates.
\<close>

theorem excluded_address_counted_as_public:
  "extract_ips_from_file ipv4_only (log_world ''0.0.0.0 8.8.8.8'') ''data/access.log'' 64
     = Inr (([], [''0.0.0.0'', ''8.8.8.8'']), []) \<and>
   candidates 64 ''0.0.0.0 8.8.8.8'' = {''0.0.0.0'', ''8.8.8.8''} \<and>
   card (candidates 64 ''0.0.0.0 8.8.8.8'') = 2 \<and>
   Set.filter (is_excluded ipv4_only) (candidates 64 ''0.0.0.0 8.8.8.8'') = {''0.0.0.0''} \<and>
   card (Set.filter (is_excluded ipv4_only) (candidates 64 ''0.0.0.0 8.8.8.8'')) = 1"
  by code_simp

section \<open>The scanner\<close>

subsection \<open>Slices, and the matcher against the language of a pattern\<close>

lemma slice_self [simp]: "slice s i i = []"
  by (simp add: slice_def)

lemma length_slice: "i \<le> e \<Longrightarrow> e \<le> length s \<Longrightarrow> length (slice s i e) = e - i"
  by (simp add: slice_def)

lemma slice_Suc: "i < length s \<Longrightarrow> slice s i (Suc i) = [s ! i]"
  by (simp add: slice_def take_Suc_conv_app_nth Cons_nth_drop_Suc[symmetric] take_Suc hd_drop_conv_nth)

lemma slice_append:
  assumes "i \<le> m" "m \<le> e"
  shows "slice s i e = slice s i m @ slice s m e"
proof -
  have "e - i = (m - i) + (e - m)" using assms by simp
  then have "take (e - i) (drop i s) =
      take (m - i) (drop i s) @ take (e - m) (drop (m - i) (drop i s))"
    by (simp only: take_add)
  moreover have "drop (m - i) (drop i s) = drop m s" using assms by simp
  ultimately show ?thesis by (simp add: slice_def)
qed

lemma slice_split:
  assumes "slice s i e = x @ y" "i \<le> e" "e \<le> length s"
  shows "i + length x \<le> e \<and> slice s i (i + length x) = x \<and> slice s (i + length x) e = y"
proof -
  have "length (slice s i e) = e - i" using assms(2,3) by (rule length_slice)
  then have len: "length x + length y = e - i"
    using assms(1) by simp
  then have le: "i + length x \<le> e" using assms(2) by simp
  from slice_append[of i "i + length x" e s] le assms(1)
  have eq: "slice s i (i + length x) @ slice s (i + length x) e = x @ y" by simp
  have "length (slice s i (i + length x)) = length x"
    using le assms(3) by (simp add: length_slice)
  with eq show ?thesis using le by (simp add: append_eq_append_conv)
qed

lemma in_iter_Suc:
  "e \<in> set (iter (Suc n) f i) \<longleftrightarrow> (\<exists>m \<in> set (f i). e \<in> set (iter n f m))"
  by auto

lemma slice_Nil_iff: "i \<le> e \<Longrightarrow> e \<le> length s \<Longrightarrow> slice s i e = [] \<longleftrightarrow> e = i"
proof -
  assume a: "i \<le> e" "e \<le> length s"
  then have "length (slice s i e) = e - i" by (rule length_slice)
  then show ?thesis using a by (cases "e = i") auto
qed

lemma slice_singleton:
  assumes "i \<le> e" "e \<le> length s" "slice s i e = [c]"
  shows "e = Suc i \<and> i < length s \<and> s ! i = c"
proof -
  from length_slice[OF assms(1,2)] assms(3) have "e - i = 1" by simp
  with assms(1,2) have e: "e = Suc i" "i < length s" by simp_all
  with assms(3) show ?thesis by (simp add: slice_Suc)
qed

lemma spans_le: "m \<in> spans A s i \<Longrightarrow> m \<le> length s"
  by (simp add: spans_def)

lemma iter_spans:
  assumes "\<And>i. i \<le> length s \<Longrightarrow> set (f i) = spans A s i"
  shows "i \<le> length s \<Longrightarrow> set (iter n f i) = spans (pow n A) s i"
proof (induction n arbitrary: i)
  case 0
  then show ?case by (auto simp: spans_def slice_Nil_iff)
next
  case (Suc n)
  show ?case
  proof (intro set_eqI iffI)
    fix e assume "e \<in> set (iter (Suc n) f i)"
    then obtain m where m0: "m \<in> set (f i)" "e \<in> set (iter n f m)" by auto
    from m0(1) have m1: "m \<in> spans A s i" using assms[OF Suc.prems] by simp
    then have "m \<le> length s" by (rule spans_le)
    with m0(2) have "e \<in> spans (pow n A) s m" using Suc.IH by simp
    note m = m1 this
    then have "slice s i e = slice s i m @ slice s m e"
      by (intro slice_append) (auto simp: spans_def)
    with m show "e \<in> spans (pow (Suc n) A) s i"
      by (auto simp: spans_def)
  next
    fix e assume "e \<in> spans (pow (Suc n) A) s i"
    then obtain x y where xy: "i \<le> e" "e \<le> length s" "slice s i e = x @ y" "x \<in> A" "y \<in> pow n A"
      by (auto simp: spans_def)
    from slice_split[OF xy(3,1,2)] xy
    have k: "i + length x \<in> spans A s i" "e \<in> spans (pow n A) s (i + length x)"
      by (auto simp: spans_def)
    from k(1) have "i + length x \<in> set (f i)" using assms[OF Suc.prems] by simp
    moreover from k(1) have "i + length x \<le> length s" by (rule spans_le)
    with k(2) have "e \<in> set (iter n f (i + length x))" using Suc.IH by simp
    ultimately show "e \<in> set (iter (Suc n) f i)" by auto
  qed
qed

lemma rmatch_lang:
  "no_wordb r \<Longrightarrow> i \<le> length s \<Longrightarrow> set (rmatch r s i) = spans (lang r) s i"
proof (induction r arbitrary: i)
  case (Lit c)
  show ?case
  proof (intro set_eqI iffI)
    fix e assume "e \<in> set (rmatch (Lit c) s i)"
    then show "e \<in> spans (lang (Lit c)) s i"
      by (auto simp: spans_def slice_Suc split: if_splits)
  next
    fix e assume "e \<in> spans (lang (Lit c)) s i"
    then have h: "i \<le> e" "e \<le> length s" "slice s i e = [c]" by (auto simp: spans_def)
    from slice_singleton[OF h(1,2,3)] h show "e \<in> set (rmatch (Lit c) s i)" by simp
  qed
next
  case (Range a b)
  show ?case
  proof (intro set_eqI iffI)
    fix e assume "e \<in> set (rmatch (Range a b) s i)"
    then show "e \<in> spans (lang (Range a b)) s i"
      by (auto simp: spans_def slice_Suc split: if_splits)
  next
    fix e assume "e \<in> spans (lang (Range a b)) s i"
    then obtain c where h: "i \<le> e" "e \<le> length s" "slice s i e = [c]" "a \<le> c" "c \<le> b"
      by (auto simp: spans_def)
    from slice_singleton[OF h(1,2,3)] h show "e \<in> set (rmatch (Range a b) s i)" by simp
  qed
next
  case (Cls cs)
  show ?case
  proof (intro set_eqI iffI)
    fix e assume "e \<in> set (rmatch (Cls cs) s i)"
    then show "e \<in> spans (lang (Cls cs)) s i"
      by (auto simp: spans_def slice_Suc split: if_splits)
  next
    fix e assume "e \<in> spans (lang (Cls cs)) s i"
    then obtain c where h: "i \<le> e" "e \<le> length s" "slice s i e = [c]" "c \<in> set cs"
      by (auto simp: spans_def)
    from slice_singleton[OF h(1,2,3)] h show "e \<in> set (rmatch (Cls cs) s i)" by simp
  qed
next
  case (Seq r1 r2)
  then have ih: "\<And>i. i \<le> length s \<Longrightarrow> set (rmatch r1 s i) = spans (lang r1) s i"
    "\<And>i. i \<le> length s \<Longrightarrow> set (rmatch r2 s i) = spans (lang r2) s i" by simp_all
  note il = \<open>i \<le> length s\<close>
  show ?case
  proof (intro set_eqI iffI)
    fix e assume "e \<in> set (rmatch (Seq r1 r2) s i)"
    then obtain m where m0: "m \<in> set (rmatch r1 s i)" "e \<in> set (rmatch r2 s m)" by auto
    from m0(1) have m1: "m \<in> spans (lang r1) s i" using ih(1)[OF il] by simp
    then have "m \<le> length s" by (rule spans_le)
    with m0(2) have "e \<in> spans (lang r2) s m" using ih(2) by simp
    note m = m1 this
    then have "slice s i e = slice s i m @ slice s m e"
      by (intro slice_append) (auto simp: spans_def)
    with m show "e \<in> spans (lang (Seq r1 r2)) s i"
      by (auto simp: spans_def)
  next
    fix e assume "e \<in> spans (lang (Seq r1 r2)) s i"
    then obtain x y where xy: "i \<le> e" "e \<le> length s" "slice s i e = x @ y"
      "x \<in> lang r1" "y \<in> lang r2"
      by (auto simp: spans_def)
    from slice_split[OF xy(3,1,2)] xy
    have k: "i + length x \<in> spans (lang r1) s i" "e \<in> spans (lang r2) s (i + length x)"
      by (auto simp: spans_def)
    from k(1) have "i + length x \<in> set (rmatch r1 s i)" using ih(1)[OF il] by simp
    moreover from k(1) have "i + length x \<le> length s" by (rule spans_le)
    with k(2) have "e \<in> set (rmatch r2 s (i + length x))" using ih(2) by simp
    ultimately show "e \<in> set (rmatch (Seq r1 r2) s i)" by auto
  qed
next
  case (Alt r1 r2)
  then show ?case by (auto simp: spans_def)
next
  case (Opt r)
  then show ?case by (auto simp: spans_def slice_Nil_iff)
next
  case (Times n r)
  then have "\<And>i. i \<le> length s \<Longrightarrow> set (rmatch r s i) = spans (lang r) s i" by simp
  from iter_spans[of s "rmatch r s" "lang r" i n, OF this] Times.prems show ?case by simp
next
  case WordB
  then show ?case by simp
qed

subsection \<open>The language of the octet pattern\<close>

lemma digit_code: "is_ascii_digit c \<longleftrightarrow> 48 \<le> (of_char c :: nat) \<and> (of_char c :: nat) \<le> 57"
  by (simp add: is_ascii_digit_def less_eq_char_def)

lemma digit_value_nat: "digit_value c = int (of_char c) - 48"
  by (simp add: digit_value_def of_nat_of_char)

lemma char_le_code: "a \<le> b \<longleftrightarrow> (of_char a :: nat) \<le> of_char b"
  by (simp add: less_eq_char_def)

lemma code_eq_char: "(of_char c :: nat) = of_char d \<longleftrightarrow> c = d"
  by (rule of_char_eq_iff)

lemma int_of_digits_1: "int_of_digits [a] = digit_value a"
  by (simp add: int_of_digits_def)

lemma int_of_digits_2: "int_of_digits [a, b] = 10 * digit_value a + digit_value b"
  by (simp add: int_of_digits_def)

lemma int_of_digits_3: "int_of_digits [a, b, c] = 100 * digit_value a + 10 * digit_value b + digit_value c"
  by (simp add: int_of_digits_def)

lemma in_lang_Seq_Lit: "g \<in> lang (Seq (Lit c) r) \<longleftrightarrow> (\<exists>y. g = c # y \<and> y \<in> lang r)"
proof
  assume "g \<in> lang (Seq (Lit c) r)"
  then show "\<exists>y. g = c # y \<and> y \<in> lang r" by auto
next
  assume "\<exists>y. g = c # y \<and> y \<in> lang r"
  then obtain y where "g = [c] @ y" "y \<in> lang r" by auto
  then show "g \<in> lang (Seq (Lit c) r)" unfolding lang.simps by blast
qed

lemma in_lang_Range: "g \<in> lang (Range a b) \<longleftrightarrow> (\<exists>c. g = [c] \<and> a \<le> c \<and> c \<le> b)"
  by auto

lemma in_lang_Seq_Range:
  "g \<in> lang (Seq (Range a b) r) \<longleftrightarrow> (\<exists>c y. g = c # y \<and> a \<le> c \<and> c \<le> b \<and> y \<in> lang r)"
proof
  assume "g \<in> lang (Seq (Range a b) r)"
  then show "\<exists>c y. g = c # y \<and> a \<le> c \<and> c \<le> b \<and> y \<in> lang r" by auto
next
  assume "\<exists>c y. g = c # y \<and> a \<le> c \<and> c \<le> b \<and> y \<in> lang r"
  then obtain c y where "g = [c] @ y" "[c] \<in> lang (Range a b)" "y \<in> lang r" by auto
  then show "g \<in> lang (Seq (Range a b) r)" unfolding lang.simps(4) by blast
qed

lemma in_lang_Seq_Opt:
  "g \<in> lang (Seq (Opt r1) r2) \<longleftrightarrow> g \<in> lang (Seq r1 r2) \<or> g \<in> lang r2"
proof
  assume "g \<in> lang (Seq (Opt r1) r2)"
  then show "g \<in> lang (Seq r1 r2) \<or> g \<in> lang r2" by auto
next
  assume "g \<in> lang (Seq r1 r2) \<or> g \<in> lang r2"
  then show "g \<in> lang (Seq (Opt r1) r2)"
  proof
    assume "g \<in> lang (Seq r1 r2)"
    then show ?thesis by auto
  next
    assume "g \<in> lang r2"
    then have "g = [] @ g" "[] \<in> lang (Opt r1)" by simp_all
    with \<open>g \<in> lang r2\<close> show ?thesis unfolding lang.simps(4) by blast
  qed
qed

lemma in_lang_Seq_Cls:
  "g \<in> lang (Seq (Cls cs) r) \<longleftrightarrow> (\<exists>c y. g = c # y \<and> c \<in> set cs \<and> y \<in> lang r)"
proof
  assume "g \<in> lang (Seq (Cls cs) r)"
  then show "\<exists>c y. g = c # y \<and> c \<in> set cs \<and> y \<in> lang r" by auto
next
  assume "\<exists>c y. g = c # y \<and> c \<in> set cs \<and> y \<in> lang r"
  then obtain c y where "g = [c] @ y" "[c] \<in> lang (Cls cs)" "y \<in> lang r" by auto
  then show "g \<in> lang (Seq (Cls cs) r)" unfolding lang.simps(4) by blast
qed

lemma in_lang_Opt: "g \<in> lang (Opt r) \<longleftrightarrow> g = [] \<or> g \<in> lang r"
  by auto

lemmas in_lang = in_lang_Seq_Lit in_lang_Seq_Range in_lang_Seq_Opt in_lang_Seq_Cls
  in_lang_Range in_lang_Opt

lemma in_lang_octet:
  "g \<in> lang octet_re \<longleftrightarrow>
     (\<exists>c. g = [CHR ''2'', CHR ''5'', c] \<and> CHR ''0'' \<le> c \<and> c \<le> CHR ''5'') \<or>
     (\<exists>b c. g = [CHR ''2'', b, c] \<and> CHR ''0'' \<le> b \<and> b \<le> CHR ''4'' \<and> is_ascii_digit c) \<or>
     (\<exists>a b c. g = [a, b, c] \<and> (a = CHR ''0'' \<or> a = CHR ''1'') \<and> is_ascii_digit b \<and> is_ascii_digit c) \<or>
     (\<exists>a b. g = [a, b] \<and> is_ascii_digit a \<and> is_ascii_digit b) \<or>
     (\<exists>a. g = [a] \<and> is_ascii_digit a)"
proof -
  note U = octet_re_def lang.simps(5) Un_iff in_lang is_ascii_digit_def
  show ?thesis
  proof (cases g)
    case Nil
    then show ?thesis unfolding U by simp
  next
    case g1: (Cons a g1)
    show ?thesis
    proof (cases g1)
      case Nil
      with g1 show ?thesis unfolding U by simp
    next
      case g2: (Cons b g2)
      show ?thesis
      proof (cases g2)
        case Nil
        with g1 g2 show ?thesis unfolding U by (auto simp: char_le_code)
      next
        case g3: (Cons c g3)
        show ?thesis
        proof (cases g3)
          case Nil
          with g1 g2 g3 show ?thesis unfolding U by (auto simp: char_le_code)
        next
          case (Cons d g4)
          with g1 g2 g3 show ?thesis unfolding U by simp
        qed
      qed
    qed
  qed
qed

lemma code_is_char:
  "(of_char a :: nat) = 48 \<longleftrightarrow> a = CHR ''0''"
  "(of_char a :: nat) = 49 \<longleftrightarrow> a = CHR ''1''"
  "(of_char a :: nat) = 50 \<longleftrightarrow> a = CHR ''2''"
  "(of_char a :: nat) = 53 \<longleftrightarrow> a = CHR ''5''"
proof -
  have "(of_char a :: nat) = of_char CHR ''0'' \<longleftrightarrow> a = CHR ''0''" by (rule of_char_eq_iff)
  then show "(of_char a :: nat) = 48 \<longleftrightarrow> a = CHR ''0''" by simp
  have "(of_char a :: nat) = of_char CHR ''1'' \<longleftrightarrow> a = CHR ''1''" by (rule of_char_eq_iff)
  then show "(of_char a :: nat) = 49 \<longleftrightarrow> a = CHR ''1''" by simp
  have "(of_char a :: nat) = of_char CHR ''2'' \<longleftrightarrow> a = CHR ''2''" by (rule of_char_eq_iff)
  then show "(of_char a :: nat) = 50 \<longleftrightarrow> a = CHR ''2''" by simp
  have "(of_char a :: nat) = of_char CHR ''5'' \<longleftrightarrow> a = CHR ''5''" by (rule of_char_eq_iff)
  then show "(of_char a :: nat) = 53 \<longleftrightarrow> a = CHR ''5''" by simp
qed

lemma lang_octet_group:
  assumes "g \<in> lang octet_re"
  shows "octet_group g"
proof -
  note W = octet_group_def is_ascii_digit_def char_le_code digit_value_nat
    int_of_digits_1 int_of_digits_2 int_of_digits_3
  from assms show ?thesis
    unfolding in_lang_octet
  proof (elim disjE exE conjE)
    fix c assume "g = [CHR ''2'', CHR ''5'', c]" "CHR ''0'' \<le> c" "c \<le> CHR ''5''"
    then show ?thesis by (simp add: W)
  next
    fix b c assume "g = [CHR ''2'', b, c]" "CHR ''0'' \<le> b" "b \<le> CHR ''4''" "is_ascii_digit c"
    then show ?thesis by (simp add: W)
  next
    fix a b c assume "g = [a, b, c]" "a = CHR ''0''" "is_ascii_digit b" "is_ascii_digit c"
    then show ?thesis by (simp add: W)
  next
    fix a b c assume "g = [a, b, c]" "a = CHR ''1''" "is_ascii_digit b" "is_ascii_digit c"
    then show ?thesis by (simp add: W)
  next
    fix a b assume "g = [a, b]" "is_ascii_digit a" "is_ascii_digit b"
    then show ?thesis by (simp add: W)
  next
    fix a assume "g = [a]" "is_ascii_digit a"
    then show ?thesis by (simp add: W)
  qed
qed

lemma octet_three_int:
  fixes na nb nc :: int
  assumes "48 \<le> na" "na \<le> 57" "48 \<le> nb" "nb \<le> 57" "48 \<le> nc" "nc \<le> 57"
    and v: "100 * (na - 48) + 10 * (nb - 48) + (nc - 48) \<le> 255"
  shows "na = 48 \<or> na = 49 \<or> (na = 50 \<and> nb \<le> 52) \<or> (na = 50 \<and> nb = 53 \<and> nc \<le> 53)"
proof -
  have "100 * (na - 48) \<le> 255" using assms by arith
  then have "na \<le> 50" by arith
  then consider "na = 48" | "na = 49" | "na = 50" using assms(1) by arith
  then show ?thesis
  proof cases
    case 3
    with v assms have "10 * (nb - 48) \<le> 55" by arith
    then have "nb \<le> 53" by arith
    then consider "nb \<le> 52" | "nb = 53" by arith
    then show ?thesis
    proof cases
      case 1
      with 3 show ?thesis by simp
    next
      case 2
      with 3 v have "nc \<le> 53" by arith
      with 2 3 show ?thesis by simp
    qed
  qed simp_all
qed

lemma octet_three:
  fixes na nb nc :: nat
  assumes "48 \<le> na" "na \<le> 57" "48 \<le> nb" "nb \<le> 57" "48 \<le> nc" "nc \<le> 57"
    and "100 * (int na - 48) + 10 * (int nb - 48) + (int nc - 48) \<le> 255"
  shows "na = 48 \<or> na = 49 \<or> (na = 50 \<and> nb \<le> 52) \<or> (na = 50 \<and> nb = 53 \<and> nc \<le> 53)"
proof -
  have "int na = 48 \<or> int na = 49 \<or> (int na = 50 \<and> int nb \<le> 52) \<or>
        (int na = 50 \<and> int nb = 53 \<and> int nc \<le> 53)"
    using assms by (intro octet_three_int) simp_all
  then show ?thesis by simp
qed

lemma octet_group_lang:
  assumes "octet_group g"
  shows "g \<in> lang octet_re"
proof -
  from assms have len: "1 \<le> length g" "length g \<le> 3" and dig: "list_all is_ascii_digit g"
    and val: "int_of_digits g \<le> 255"
    by (simp_all add: octet_group_def)
  from len have "length g = 1 \<or> length g = 2 \<or> length g = 3" by arith
  then consider a where "g = [a]" | a b where "g = [a, b]" | a b c where "g = [a, b, c]"
    by (auto simp: length_Suc_conv numeral_2_eq_2 numeral_3_eq_3)
  then show ?thesis
  proof cases
    case 1
    with dig show ?thesis unfolding in_lang_octet by simp
  next
    case 2
    with dig show ?thesis unfolding in_lang_octet by simp
  next
    case 3
    with dig have d: "is_ascii_digit a" "is_ascii_digit b" "is_ascii_digit c" by simp_all
    from d val 3 have
      "(of_char a :: nat) = 48 \<or> (of_char a :: nat) = 49 \<or>
       ((of_char a :: nat) = 50 \<and> (of_char b :: nat) \<le> 52) \<or>
       ((of_char a :: nat) = 50 \<and> (of_char b :: nat) = 53 \<and> (of_char c :: nat) \<le> 53)"
      by (intro octet_three) (simp_all add: digit_code digit_value_nat int_of_digits_3)
    then have
      "a = CHR ''0'' \<or> a = CHR ''1'' \<or> (a = CHR ''2'' \<and> b \<le> CHR ''4'') \<or>
       (a = CHR ''2'' \<and> b = CHR ''5'' \<and> c \<le> CHR ''5'')"
      by (simp add: code_is_char char_le_code)
    with d 3 show ?thesis unfolding in_lang_octet
      by (auto simp: is_ascii_digit_def)
  qed
qed

lemma octet_group_iff_lang: "octet_group g \<longleftrightarrow> g \<in> lang octet_re"
  using lang_octet_group octet_group_lang by blast

subsection \<open>The language of the four-octet pattern is the grammar of a literal\<close>

lemma split_on_not_Nil [simp]: "split_on c t \<noteq> []"
  by (induction t) (auto split: list.splits)

lemma split_on_no_sep: "c \<notin> set g \<Longrightarrow> split_on c g = [g]"
  by (induction g) auto

lemma split_on_append: "c \<notin> set g \<Longrightarrow> split_on c (g @ c # t) = g # split_on c t"
  by (induction g) auto

lemma split_on_Cons:
  "split_on c t = g # gs \<Longrightarrow>
     c \<notin> set g \<and> ((gs = [] \<and> t = g) \<or> (\<exists>t'. t = g @ c # t' \<and> split_on c t' = gs))"
proof (induction t arbitrary: g)
  case Nil
  then show ?case by simp
next
  case (Cons x t)
  show ?case
  proof (cases "x = c")
    case True
    with Cons.prems show ?thesis by auto
  next
    case False
    with Cons.prems obtain g' where g': "split_on c t = g' # gs" "g = x # g'"
      by (auto split: list.splits)
    from Cons.IH[OF g'(1)] g'(2) False show ?thesis by auto
  qed
qed

lemma split_on_four:
  "split_on c t = [g1, g2, g3, g4] \<longleftrightarrow>
     t = g1 @ c # g2 @ c # g3 @ c # g4 \<and> c \<notin> set g1 \<and> c \<notin> set g2 \<and> c \<notin> set g3 \<and> c \<notin> set g4"
proof
  assume a: "split_on c t = [g1, g2, g3, g4]"
  from split_on_Cons[OF a] obtain t1 where 1: "c \<notin> set g1" "t = g1 @ c # t1" "split_on c t1 = [g2, g3, g4]"
    by auto
  from split_on_Cons[OF 1(3)] obtain t2 where 2: "c \<notin> set g2" "t1 = g2 @ c # t2" "split_on c t2 = [g3, g4]"
    by auto
  from split_on_Cons[OF 2(3)] obtain t3 where 3: "c \<notin> set g3" "t2 = g3 @ c # t3" "split_on c t3 = [g4]"
    by auto
  from split_on_Cons[OF 3(3)] have 4: "c \<notin> set g4" "t3 = g4" by auto
  from 1 2 3 4 show "t = g1 @ c # g2 @ c # g3 @ c # g4 \<and> c \<notin> set g1 \<and> c \<notin> set g2 \<and> c \<notin> set g3 \<and> c \<notin> set g4"
    by simp
next
  assume "t = g1 @ c # g2 @ c # g3 @ c # g4 \<and> c \<notin> set g1 \<and> c \<notin> set g2 \<and> c \<notin> set g3 \<and> c \<notin> set g4"
  then show "split_on c t = [g1, g2, g3, g4]"
    by (simp add: split_on_append split_on_no_sep)
qed

lemma dot_not_digit [simp]: "\<not> is_ascii_digit CHR ''.''"
  by (simp add: is_ascii_digit_def char_le_code)

lemma octet_group_no_dot: "octet_group g \<Longrightarrow> CHR ''.'' \<notin> set g"
  by (auto simp: octet_group_def list_all_iff)

lemma ipv4_literal_iff:
  "ipv4_literal t \<longleftrightarrow>
     (\<exists>g1 g2 g3 g4. t = g1 @ CHR ''.'' # g2 @ CHR ''.'' # g3 @ CHR ''.'' # g4 \<and>
        octet_group g1 \<and> octet_group g2 \<and> octet_group g3 \<and> octet_group g4)"
proof
  assume "ipv4_literal t"
  then obtain g1 g2 g3 g4 where "split_on CHR ''.'' t = [g1, g2, g3, g4]"
    "octet_group g1" "octet_group g2" "octet_group g3" "octet_group g4"
    by (auto simp: ipv4_literal_def split: list.splits)
  then show "\<exists>g1 g2 g3 g4. t = g1 @ CHR ''.'' # g2 @ CHR ''.'' # g3 @ CHR ''.'' # g4 \<and>
        octet_group g1 \<and> octet_group g2 \<and> octet_group g3 \<and> octet_group g4"
    unfolding split_on_four by blast
next
  assume "\<exists>g1 g2 g3 g4. t = g1 @ CHR ''.'' # g2 @ CHR ''.'' # g3 @ CHR ''.'' # g4 \<and>
        octet_group g1 \<and> octet_group g2 \<and> octet_group g3 \<and> octet_group g4"
  then obtain g1 g2 g3 g4 where t: "t = g1 @ CHR ''.'' # g2 @ CHR ''.'' # g3 @ CHR ''.'' # g4"
    and g: "octet_group g1" "octet_group g2" "octet_group g3" "octet_group g4" by blast
  from t g have "split_on CHR ''.'' t = [g1, g2, g3, g4]"
    unfolding split_on_four using octet_group_no_dot by blast
  with g show "ipv4_literal t" by (simp add: ipv4_literal_def)
qed

lemma in_lang_Seq:
  "g \<in> lang (Seq r1 r2) \<longleftrightarrow> (\<exists>x y. g = x @ y \<and> x \<in> lang r1 \<and> y \<in> lang r2)"
  by auto

lemma in_pow_Suc: "g \<in> pow (Suc n) A \<longleftrightarrow> (\<exists>x y. g = x @ y \<and> x \<in> A \<and> y \<in> pow n A)"
  by auto

lemma in_lang_octet_dot:
  "x \<in> lang (Seq octet_re (Lit CHR ''.'')) \<longleftrightarrow> (\<exists>g. x = g @ [CHR ''.''] \<and> g \<in> lang octet_re)"
  unfolding in_lang_Seq by simp

lemma in_pow3_octet_dot:
  "x \<in> pow 3 (lang (Seq octet_re (Lit CHR ''.''))) \<longleftrightarrow>
     (\<exists>g1 g2 g3. x = g1 @ CHR ''.'' # g2 @ CHR ''.'' # g3 @ [CHR ''.''] \<and>
        g1 \<in> lang octet_re \<and> g2 \<in> lang octet_re \<and> g3 \<in> lang octet_re)"
proof
  assume "x \<in> pow 3 (lang (Seq octet_re (Lit CHR ''.'')))"
  then have "x \<in> pow (Suc (Suc (Suc 0))) (lang (Seq octet_re (Lit CHR ''.'')))"
    by (simp only: numeral_3_eq_3)
  then obtain x1 x2 x3 where x: "x = x1 @ x2 @ x3"
    and "x1 \<in> lang (Seq octet_re (Lit CHR ''.''))" "x2 \<in> lang (Seq octet_re (Lit CHR ''.''))"
      "x3 \<in> lang (Seq octet_re (Lit CHR ''.''))"
    unfolding in_pow_Suc pow.simps(1) by auto
  then obtain g1 g2 g3 where "x1 = g1 @ [CHR ''.'']" "x2 = g2 @ [CHR ''.'']" "x3 = g3 @ [CHR ''.'']"
    "g1 \<in> lang octet_re" "g2 \<in> lang octet_re" "g3 \<in> lang octet_re"
    unfolding in_lang_octet_dot by blast
  with x show "\<exists>g1 g2 g3. x = g1 @ CHR ''.'' # g2 @ CHR ''.'' # g3 @ [CHR ''.''] \<and>
        g1 \<in> lang octet_re \<and> g2 \<in> lang octet_re \<and> g3 \<in> lang octet_re"
    by auto
next
  assume "\<exists>g1 g2 g3. x = g1 @ CHR ''.'' # g2 @ CHR ''.'' # g3 @ [CHR ''.''] \<and>
        g1 \<in> lang octet_re \<and> g2 \<in> lang octet_re \<and> g3 \<in> lang octet_re"
  then obtain g1 g2 g3 where x: "x = (g1 @ [CHR ''.'']) @ (g2 @ [CHR ''.'']) @ (g3 @ [CHR ''.'']) @ []"
    and g: "g1 \<in> lang octet_re" "g2 \<in> lang octet_re" "g3 \<in> lang octet_re"
    by auto
  from g have d: "g1 @ [CHR ''.''] \<in> lang (Seq octet_re (Lit CHR ''.''))"
    "g2 @ [CHR ''.''] \<in> lang (Seq octet_re (Lit CHR ''.''))"
    "g3 @ [CHR ''.''] \<in> lang (Seq octet_re (Lit CHR ''.''))"
    unfolding in_lang_octet_dot by blast+
  have p0: "[] \<in> pow 0 (lang (Seq octet_re (Lit CHR ''.'')))" by simp
  from d(3) p0 have p1: "(g3 @ [CHR ''.'']) @ [] \<in> pow (Suc 0) (lang (Seq octet_re (Lit CHR ''.'')))"
    unfolding in_pow_Suc by blast
  from d(2) p1 have p2: "(g2 @ [CHR ''.'']) @ (g3 @ [CHR ''.'']) @ []
      \<in> pow (Suc (Suc 0)) (lang (Seq octet_re (Lit CHR ''.'')))"
    unfolding in_pow_Suc[of _ "Suc 0"] by blast
  from d(1) p2 have "(g1 @ [CHR ''.'']) @ (g2 @ [CHR ''.'']) @ (g3 @ [CHR ''.'']) @ []
      \<in> pow (Suc (Suc (Suc 0))) (lang (Seq octet_re (Lit CHR ''.'')))"
    unfolding in_pow_Suc[of _ "Suc (Suc 0)"] by blast
  with x show "x \<in> pow 3 (lang (Seq octet_re (Lit CHR ''.'')))"
    by (simp only: numeral_3_eq_3)
qed

lemma in_lang_ip_body:
  "t \<in> lang ip_body \<longleftrightarrow>
     (\<exists>g1 g2 g3 g4. t = g1 @ CHR ''.'' # g2 @ CHR ''.'' # g3 @ CHR ''.'' # g4 \<and>
        g1 \<in> lang octet_re \<and> g2 \<in> lang octet_re \<and> g3 \<in> lang octet_re \<and> g4 \<in> lang octet_re)"
proof
  assume "t \<in> lang ip_body"
  then obtain x g4 where "t = x @ g4" "x \<in> pow 3 (lang (Seq octet_re (Lit CHR ''.'')))"
    "g4 \<in> lang octet_re"
    unfolding ip_body_def in_lang_Seq[of t] lang.simps(7) by blast
  then obtain g1 g2 g3 where "t = g1 @ CHR ''.'' # g2 @ CHR ''.'' # g3 @ CHR ''.'' # g4"
    "g1 \<in> lang octet_re" "g2 \<in> lang octet_re" "g3 \<in> lang octet_re" "g4 \<in> lang octet_re"
    unfolding in_pow3_octet_dot by auto
  then show "\<exists>g1 g2 g3 g4. t = g1 @ CHR ''.'' # g2 @ CHR ''.'' # g3 @ CHR ''.'' # g4 \<and>
        g1 \<in> lang octet_re \<and> g2 \<in> lang octet_re \<and> g3 \<in> lang octet_re \<and> g4 \<in> lang octet_re"
    by blast
next
  assume "\<exists>g1 g2 g3 g4. t = g1 @ CHR ''.'' # g2 @ CHR ''.'' # g3 @ CHR ''.'' # g4 \<and>
        g1 \<in> lang octet_re \<and> g2 \<in> lang octet_re \<and> g3 \<in> lang octet_re \<and> g4 \<in> lang octet_re"
  then obtain g1 g2 g3 g4 where t: "t = (g1 @ CHR ''.'' # g2 @ CHR ''.'' # g3 @ [CHR ''.'']) @ g4"
    and g: "g1 \<in> lang octet_re" "g2 \<in> lang octet_re" "g3 \<in> lang octet_re" "g4 \<in> lang octet_re"
    by auto
  from g have "g1 @ CHR ''.'' # g2 @ CHR ''.'' # g3 @ [CHR ''.'']
      \<in> pow 3 (lang (Seq octet_re (Lit CHR ''.'')))"
    unfolding in_pow3_octet_dot by blast
  with t g(4) show "t \<in> lang ip_body"
    unfolding ip_body_def in_lang_Seq[of t] lang.simps(7) by blast
qed

lemma lang_ip_body: "t \<in> lang ip_body \<longleftrightarrow> ipv4_literal t"
  unfolding in_lang_ip_body ipv4_literal_iff octet_group_iff_lang ..

subsection \<open>A match of \<^verbatim>\<open>IP_PATTERN\<close> is a literal between two word boundaries\<close>

lemma digit_is_word: "is_ascii_digit c \<Longrightarrow> is_word c"
  by (simp add: is_ascii_digit_def is_word_def)

lemma octet_group_ends:
  assumes "octet_group g"
  shows "g \<noteq> [] \<and> is_ascii_digit (hd g) \<and> is_ascii_digit (last g)"
proof -
  from assms have "g \<noteq> []" "list_all is_ascii_digit g"
    by (auto simp: octet_group_def)
  then show ?thesis by (simp add: list_all_iff)
qed

lemma ipv4_literal_ends:
  assumes "ipv4_literal t"
  shows "t \<noteq> [] \<and> is_ascii_digit (hd t) \<and> is_ascii_digit (last t)"
proof -
  from assms obtain g1 g2 g3 g4 where t: "t = g1 @ CHR ''.'' # g2 @ CHR ''.'' # g3 @ CHR ''.'' # g4"
    and g: "octet_group g1" "octet_group g4"
    unfolding ipv4_literal_iff by blast
  from octet_group_ends[OF g(1)] octet_group_ends[OF g(2)] t show ?thesis
    by (simp add: hd_append)
qed

lemma ipv4_literal_chars:
  assumes "ipv4_literal t" "c \<in> set t"
  shows "is_ascii_digit c \<or> c = CHR ''.''"
proof -
  from assms(1) obtain g1 g2 g3 g4 where t: "t = g1 @ CHR ''.'' # g2 @ CHR ''.'' # g3 @ CHR ''.'' # g4"
    and g: "octet_group g1" "octet_group g2" "octet_group g3" "octet_group g4"
    unfolding ipv4_literal_iff by blast
  from g have "\<forall>c \<in> set g1 \<union> set g2 \<union> set g3 \<union> set g4. is_ascii_digit c"
    by (auto simp: octet_group_def list_all_iff)
  with t assms(2) show ?thesis by auto
qed

lemma hd_slice: "i < e \<Longrightarrow> e \<le> length s \<Longrightarrow> hd (slice s i e) = s ! i"
  by (simp add: slice_def hd_drop_conv_nth)

lemma last_slice: "i < e \<Longrightarrow> e \<le> length s \<Longrightarrow> last (slice s i e) = s ! (e - 1)"
proof -
  assume a: "i < e" "e \<le> length s"
  then have "slice s i e = slice s i (e - 1) @ slice s (e - 1) e"
    by (intro slice_append) simp_all
  moreover have "slice s (e - 1) e = [s ! (e - 1)]"
    using a slice_Suc[of "e - 1" s] by simp
  ultimately show ?thesis by simp
qed

lemma literal_span_boundaries:
  assumes "i \<le> e" "e \<le> length s" "ipv4_literal (slice s i e)"
  shows "i < e \<and> word_after s i \<and> word_before s e"
proof -
  note ends = ipv4_literal_ends[OF assms(3)]
  from ends assms(1,2) have lt: "i < e" by (cases "i = e") simp_all
  with ends assms(2) have "is_ascii_digit (s ! i)" "is_ascii_digit (s ! (e - 1))"
    by (simp_all add: hd_slice last_slice)
  with lt assms(2) show ?thesis
    by (simp add: word_after_def word_before_def digit_is_word)
qed

lemma rmatch_ip_body: "i \<le> length s \<Longrightarrow>
  set (rmatch ip_body s i) = {e. i \<le> e \<and> e \<le> length s \<and> ipv4_literal (slice s i e)}"
proof -
  assume "i \<le> length s"
  moreover have "no_wordb ip_body" by (simp add: ip_body_def octet_re_def)
  ultimately have "set (rmatch ip_body s i) = spans (lang ip_body) s i" by (rule rmatch_lang[rotated])
  then show ?thesis by (simp add: spans_def lang_ip_body)
qed

lemma rmatch_IP_PATTERN_body:
  "e \<in> set (rmatch IP_PATTERN s i) \<longleftrightarrow>
     word_boundary s i \<and> e \<in> set (rmatch ip_body s i) \<and> word_boundary s e"
  by (auto simp: IP_PATTERN_def ip_body_def)

lemma rmatch_IP_PATTERN:
  assumes "i \<le> length s"
  shows "e \<in> set (rmatch IP_PATTERN s i) \<longleftrightarrow> token_at s i e"
proof
  assume "e \<in> set (rmatch IP_PATTERN s i)"
  then have b: "word_boundary s i" "word_boundary s e" and m: "e \<in> set (rmatch ip_body s i)"
    unfolding rmatch_IP_PATTERN_body by simp_all
  from m have l: "i \<le> e" "e \<le> length s" "ipv4_literal (slice s i e)"
    unfolding rmatch_ip_body[OF assms] by simp_all
  from literal_span_boundaries[OF l] b l show "token_at s i e"
    by (simp add: token_at_def word_boundary_def)
next
  assume t: "token_at s i e"
  then have l: "i \<le> e" "e \<le> length s" "ipv4_literal (slice s i e)"
    by (simp_all add: token_at_def)
  then have "e \<in> set (rmatch ip_body s i)"
    unfolding rmatch_ip_body[OF assms] by simp
  moreover from literal_span_boundaries[OF l] t have "word_boundary s i" "word_boundary s e"
    by (simp_all add: token_at_def word_boundary_def)
  ultimately show "e \<in> set (rmatch IP_PATTERN s i)"
    unfolding rmatch_IP_PATTERN_body by simp
qed

lemma literal_extension_digit:
  assumes "ipv4_literal t" "ipv4_literal (t @ c # u)"
  shows "is_ascii_digit c"
proof (rule ccontr)
  assume nd: "\<not> is_ascii_digit c"
  from ipv4_literal_chars[OF assms(2), of c] nd have c: "c = CHR ''.''" by simp
  from assms(1) obtain g1 g2 g3 g4 where t: "t = g1 @ CHR ''.'' # g2 @ CHR ''.'' # g3 @ CHR ''.'' # g4"
    and g: "octet_group g1" "octet_group g2" "octet_group g3" "octet_group g4"
    unfolding ipv4_literal_iff by blast
  note nodot = g[THEN octet_group_no_dot]
  have "t @ c # u = g1 @ CHR ''.'' # (g2 @ CHR ''.'' # (g3 @ CHR ''.'' # (g4 @ CHR ''.'' # u)))"
    using t c by simp
  then have "split_on CHR ''.'' (t @ c # u) = g1 # g2 # g3 # g4 # split_on CHR ''.'' u"
    using nodot by (simp add: split_on_append)
  moreover obtain h hs where "split_on CHR ''.'' u = h # hs"
    by (cases "split_on CHR ''.'' u") simp_all
  ultimately show False using assms(2) by (simp add: ipv4_literal_def)
qed

lemma token_unique_less:
  assumes "token_at s i e" "token_at s i e'" "e < e'"
  shows False
proof -
  from assms have b: "i < e" "e < e'" "e' \<le> length s" by (simp_all add: token_at_def)
  then have "slice s i e' = slice s i e @ slice s e e'"
    by (intro slice_append) simp_all
  moreover have "slice s e e' = slice s e (Suc e) @ slice s (Suc e) e'"
    using b by (intro slice_append) simp_all
  moreover have "slice s e (Suc e) = [s ! e]" using b by (simp add: slice_Suc)
  ultimately have "slice s i e' = slice s i e @ s ! e # slice s (Suc e) e'" by simp
  with assms(1,2) have "is_ascii_digit (s ! e)"
    using literal_extension_digit[of "slice s i e" "s ! e" "slice s (Suc e) e'"]
    by (simp add: token_at_def)
  then have "word_after s e" using b by (simp add: word_after_def digit_is_word)
  with assms(1) show False by (simp add: token_at_def)
qed

lemma token_unique: "token_at s i e \<Longrightarrow> token_at s i e' \<Longrightarrow> e = e'"
  using token_unique_less[of s i e e'] token_unique_less[of s i e' e]
  by (cases e e' rule: linorder_cases) auto

subsection \<open>The scan reports the leftmost tokens that do not overlap\<close>

declare finditer.simps [simp del]

lemma finditer_end: "length s < p \<Longrightarrow> finditer r s p = []"
  by (subst finditer.simps) simp

lemma finditer_hit:
  assumes "token_at s p e"
  shows "finditer IP_PATTERN s p = (p, e) # finditer IP_PATTERN s e"
proof -
  from assms have b: "p < e" "e \<le> length s" by (simp_all add: token_at_def)
  then have pl: "p \<le> length s" by simp
  from assms have "e \<in> set (rmatch IP_PATTERN s p)"
    by (simp add: rmatch_IP_PATTERN[OF pl])
  then obtain e' es where m: "rmatch IP_PATTERN s p = e' # es"
    by (cases "rmatch IP_PATTERN s p") auto
  then have "e' \<in> set (rmatch IP_PATTERN s p)" by simp
  then have "token_at s p e'" by (simp add: rmatch_IP_PATTERN[OF pl])
  with assms have "e' = e" using token_unique by blast
  with m b pl show ?thesis by (subst finditer.simps) simp
qed

lemma finditer_miss:
  assumes "p \<le> length s" "\<And>e. \<not> token_at s p e"
  shows "finditer IP_PATTERN s p = finditer IP_PATTERN s (Suc p)"
proof -
  have "rmatch IP_PATTERN s p = []"
  proof (cases "rmatch IP_PATTERN s p")
    case (Cons e es)
    then have "e \<in> set (rmatch IP_PATTERN s p)" by simp
    with assms show ?thesis by (simp add: rmatch_IP_PATTERN)
  qed simp
  with assms(1) show ?thesis by (subst finditer.simps) simp
qed

lemma scan_induct [consumes 0, case_names past hit miss]:
  assumes "\<And>p. length s < p \<Longrightarrow> P p"
    and "\<And>p e. token_at s p e \<Longrightarrow> P e \<Longrightarrow> P p"
    and "\<And>p. p \<le> length s \<Longrightarrow> (\<And>e. \<not> token_at s p e) \<Longrightarrow> P (Suc p) \<Longrightarrow> P p"
  shows "P p"
proof (induction "Suc (length s) - p" arbitrary: p rule: less_induct)
  case less
  show ?case
  proof (cases "length s < p")
    case True
    then show ?thesis by (rule assms(1))
  next
    case False
    show ?thesis
    proof (cases "\<exists>e. token_at s p e")
      case True
      then obtain e where e: "token_at s p e" by blast
      then have "p < e" "e \<le> length s" by (simp_all add: token_at_def)
      then have "Suc (length s) - e < Suc (length s) - p" by simp
      then have "P e" by (rule less)
      with e show ?thesis by (rule assms(2))
    next
      case nt: False
      from False have "Suc (length s) - Suc p < Suc (length s) - p" by simp
      then have "P (Suc p)" by (rule less)
      moreover from False have "p \<le> length s" by simp
      moreover from nt have "\<And>e. \<not> token_at s p e" by blast
      ultimately show ?thesis using assms(3) by blast
    qed
  qed
qed

lemma finditer_sound:
  "(i, e) \<in> set (finditer IP_PATTERN s p) \<Longrightarrow> p \<le> i \<and> token_at s i e"
proof (induction p rule: scan_induct[of s])
  case (past p)
  then show ?case by (simp add: finditer_end)
next
  case (hit p e0)
  from hit.hyps have "p < e0" by (simp add: token_at_def)
  with hit show ?case by (auto simp: finditer_hit[OF hit.hyps])
next
  case (miss p)
  then show ?case by (auto simp: finditer_miss[OF miss.hyps(1,2)])
qed

lemma finditer_complete:
  "token_at s i e \<Longrightarrow> p \<le> i \<Longrightarrow>
   (i, e) \<in> set (finditer IP_PATTERN s p) \<or>
   (\<exists>(i', e') \<in> set (finditer IP_PATTERN s p). i' < i \<and> i < e')"
proof (induction p rule: scan_induct[of s])
  case (past p)
  then show ?case by (simp add: token_at_def)
next
  case (hit p e0)
  show ?case
  proof (cases "i = p")
    case True
    with hit.prems hit.hyps have "e = e0" using token_unique by blast
    with True show ?thesis by (simp add: finditer_hit[OF hit.hyps])
  next
    case False
    with hit.prems have pi: "p < i" by simp
    show ?thesis
    proof (cases "i < e0")
      case True
      with pi show ?thesis by (simp add: finditer_hit[OF hit.hyps])
    next
      case False
      then have "e0 \<le> i" by simp
      from hit.IH[OF hit.prems(1) this] show ?thesis
        by (auto simp: finditer_hit[OF hit.hyps])
    qed
  qed
next
  case (miss p)
  from miss.hyps(2) miss.prems have "i \<noteq> p" by blast
  with miss.prems have "Suc p \<le> i" by simp
  from miss.IH[OF miss.prems(1) this] show ?case
    by (simp add: finditer_miss[OF miss.hyps(1,2)])
qed

lemma finditer_ordered:
  "sorted_wrt (\<lambda>a b. snd a \<le> fst b) (finditer IP_PATTERN s p)"
proof (induction p rule: scan_induct[of s])
  case (past p)
  then show ?case by (simp add: finditer_end)
next
  case (hit p e0)
  have "\<forall>x \<in> set (finditer IP_PATTERN s e0). e0 \<le> fst x"
    using finditer_sound[of _ _ s e0] by auto
  with hit show ?case by (simp add: finditer_hit[OF hit.hyps])
next
  case (miss p)
  then show ?case by (simp add: finditer_miss[OF miss.hyps(1,2)])
qed

declare decode_utf8_ignore.simps [simp del]

lemma decode_utf8_ignore_ascii:
  "list_all (\<lambda>b. (of_char b :: nat) < 128) bs \<Longrightarrow> decode_utf8_ignore bs = bs"
proof (induction bs)
  case Nil
  show ?case by (subst decode_utf8_ignore.simps) simp
next
  case (Cons b bs)
  then have "byte_in 0x00 0x7F b" by (simp add: byte_in_def)
  then have "utf8_step (b # bs) = (1, True)" by (simp add: utf8_step_def)
  with Cons show ?case by (subst decode_utf8_ignore.simps) simp
qed

lemma ipv4_literal_ascii:
  assumes "ipv4_literal t"
  shows "list_all (\<lambda>b. (of_char b :: nat) < 128) t"
proof -
  have "(of_char c :: nat) < 128" if "c \<in> set t" for c
    using ipv4_literal_chars[OF assms that]
    by (auto simp: digit_code)
  then show ?thesis by (simp add: list_all_iff)
qed

lemma findall_literals:
  "t \<in> set (findall IP_PATTERN s) \<Longrightarrow> ipv4_literal t"
  using finditer_sound[of _ _ s 0]
  by (auto simp: findall_def token_at_def)

lemma scan_eq_findall: "scan chunk = findall IP_PATTERN chunk"
proof -
  have "map decode_utf8_ignore (findall IP_PATTERN chunk) = map (\<lambda>t. t) (findall IP_PATTERN chunk)"
    by (intro map_cong refl decode_utf8_ignore_ascii ipv4_literal_ascii findall_literals)
  then show ?thesis by (simp add: scan_def)
qed

lemma scan_literals: "t \<in> set (scan chunk) \<Longrightarrow> ipv4_literal t"
  by (simp add: scan_eq_findall findall_literals)

text \<open>
  C3 (as amended). The boundary of the pattern is the word boundary \<^verbatim>\<open>\b\<close>, and a dot is
  not a word byte. For every chunk the scanner returns the bytes of the spans that the
  scan reports; every reported span is a literal with no word byte (letter, digit or
  underscore) next to it on either side; the spans are in ascending order and do not
  overlap; and every such occurrence of a literal in the chunk is either reported or
  overlaps a reported span that starts to its left. So a literal inside a longer run of
  digits or letters is not reported, but a literal next to a dot is.
\<close>

theorem scanner_extracts_word_bounded_tokens:
  "scan chunk = map (\<lambda>(i, e). slice chunk i e) (finditer IP_PATTERN chunk 0) \<and>
   (\<forall>(i, e) \<in> set (finditer IP_PATTERN chunk 0). token_at chunk i e) \<and>
   sorted_wrt (\<lambda>a b. snd a \<le> fst b) (finditer IP_PATTERN chunk 0) \<and>
   (\<forall>i e. token_at chunk i e \<longrightarrow>
      (i, e) \<in> set (finditer IP_PATTERN chunk 0) \<or>
      (\<exists>(i', e') \<in> set (finditer IP_PATTERN chunk 0). i' < i \<and> i < e'))"
  using finditer_sound[of _ _ chunk 0] finditer_complete[of chunk _ _ 0]
    finditer_ordered[of chunk 0]
  by (auto simp: scan_eq_findall findall_def)

theorem scanner_extracts_word_bounded_tokens_witness:
  "finditer IP_PATTERN ''1.2.3.4.5'' 0 = [(0, 7)] \<and>
   scan ''1.2.3.4.5'' = [slice ''1.2.3.4.5'' 0 7] \<and>
   token_at ''1.2.3.4.5'' 0 7 \<and>
   token_at ''1.2.3.4.5'' 2 9 \<and>
   (2, 9) \<notin> set (finditer IP_PATTERN ''1.2.3.4.5'' 0) \<and>
   \<not> token_at ''x1.2.3.4'' 1 8 \<and> \<not> token_at ''1.2.3.45'' 0 7"
proof -
  have f: "finditer IP_PATTERN ''1.2.3.4.5'' 0 = [(0, 7)]" by code_simp
  have t: "token_at ''1.2.3.4.5'' 2 9" by code_simp
  have n: "\<not> token_at ''x1.2.3.4'' 1 8 \<and> \<not> token_at ''1.2.3.45'' 0 7" by code_simp
  note th = scanner_extracts_word_bounded_tokens[of "''1.2.3.4.5''"]
  from th f have s: "scan ''1.2.3.4.5'' = [slice ''1.2.3.4.5'' 0 7]" by simp
  from th f have t0: "token_at ''1.2.3.4.5'' 0 7" by simp
  from f have m: "(2, 9) \<notin> set (finditer IP_PATTERN ''1.2.3.4.5'' 0)" by simp
  from f s t0 t m n show ?thesis by (intro conjI) simp_all
qed

text \<open>
  The claim as the specification states it fails: \<^verbatim>\<open>1.2.3.4\<close> is reported from
  \<^verbatim>\<open>1.2.3.4.5\<close>, and \<^verbatim>\<open>_process_chunk\<close> returns it.
\<close>

theorem dotted_neighbour_is_extracted:
  "scan ''1.2.3.4.5'' = [''1.2.3.4''] \<and>
   process_chunk ipv4_only ''1.2.3.4.5'' = Inr ({}, {''1.2.3.4''})"
  by code_simp

text \<open>
  C10. Every string in either set that \<^verbatim>\<open>_process_chunk\<close> returns, and every string in
  either list that \<^verbatim>\<open>extract_ips_from_file\<close> returns, is a literal: four groups of one to
  three decimal digits with a value of at most 255, separated by dots, and nothing else
  (so it is not empty).
\<close>

theorem outputs_match_grammar:
  "(process_chunk L chunk = Inr (P, Q) \<and> ip \<in> P \<union> Q \<longrightarrow> ipv4_literal ip) \<and>
   (extract_ips_from_file L w path chunk_size = Inr ((private_ips, public_ips), log) \<and>
      ip \<in> set private_ips \<union> set public_ips \<longrightarrow> ipv4_literal ip)"
proof (intro conjI impI)
  assume "process_chunk L chunk = Inr (P, Q) \<and> ip \<in> P \<union> Q"
  then have "ip \<in> set (scan chunk)"
    by (auto simp: process_chunk_sets private_of_def public_of_def)
  then show "ipv4_literal ip" by (rule scan_literals)
next
  assume a: "extract_ips_from_file L w path chunk_size = Inr ((private_ips, public_ips), log) \<and>
      ip \<in> set private_ips \<union> set public_ips"
  from extract_cases[OF a[THEN conjunct1]] a[THEN conjunct2]
  have "\<exists>c. ip \<in> private_of L c \<union> public_of L c"
    by auto
  then obtain c where "ip \<in> private_of L c \<union> public_of L c" ..
  then have "ip \<in> set (scan c)" by (auto simp: private_of_def public_of_def)
  then show "ipv4_literal ip" by (rule scan_literals)
qed

theorem outputs_match_grammar_witness:
  "process_chunk ipv4_only ''GET / from 10.0.0.5 to 8.8.8.8'' = Inr ({''10.0.0.5''}, {''8.8.8.8''}) \<and>
   ipv4_literal ''10.0.0.5'' \<and> ipv4_literal ''8.8.8.8'' \<and>
   extract_ips_from_file ipv4_only (log_world ''GET / from 10.0.0.5 to 8.8.8.8'')
       ''data/access.log'' 64
     = Inr (([''10.0.0.5''], [''8.8.8.8'']), [])"
proof -
  have p: "process_chunk ipv4_only ''GET / from 10.0.0.5 to 8.8.8.8'' = Inr ({''10.0.0.5''}, {''8.8.8.8''})"
    by code_simp
  have e: "extract_ips_from_file ipv4_only (log_world ''GET / from 10.0.0.5 to 8.8.8.8'')
       ''data/access.log'' 64 = Inr (([''10.0.0.5''], [''8.8.8.8'']), [])"
    by code_simp
  have "ipv4_literal ''10.0.0.5''"
    using outputs_match_grammar[where L = ipv4_only
        and chunk = "''GET / from 10.0.0.5 to 8.8.8.8''"
        and P = "{''10.0.0.5''}" and Q = "{''8.8.8.8''}" and ip = "''10.0.0.5''",
        THEN conjunct1] p
    by simp
  moreover have "ipv4_literal ''8.8.8.8''"
    using outputs_match_grammar[where L = ipv4_only
        and w = "log_world ''GET / from 10.0.0.5 to 8.8.8.8''"
        and path = "''data/access.log''" and chunk_size = 64
        and private_ips = "[''10.0.0.5'']" and public_ips = "[''8.8.8.8'']"
        and log = "[]" and ip = "''8.8.8.8''", THEN conjunct2] e
    by simp
  ultimately show ?thesis using p e by simp
qed

section \<open>Chunk size and completion order\<close>

subsection \<open>Scanning the two sides of a clean cut\<close>














subsection \<open>Scanning the chunks of a clean splitting\<close>
















end
